theory Spec2Isabelle
  imports Complex_Main "HOL-Library.Word" "HOL-Library.Sublist"
begin

section \<open>JavaScript strings\<close>

text \<open>
  A JavaScript string is a sequence of UTF-16 code units, and \<open>length\<close>, \<open>slice\<close>,
  \<open>trim\<close> and the regular expressions of \<^verbatim>\<open>src/index.js\<close> all work on code units.
  The typographic apostrophe of the fallback sentence is the single code unit
  \<open>0x2019\<close>.
\<close>

type_synonym jschar = "16 word"
type_synonym jsstr = "jschar list"

text \<open>An ASCII literal of the source, read as code units.\<close>

definition js :: "string \<Rightarrow> jsstr" where
  "js s = map (\<lambda>c. of_nat (of_char c)) s"

text \<open>
  The class \<^verbatim>\<open>\s\<close> of a regular expression, which is also what \<^verbatim>\<open>trim()\<close>
  removes: white space and line terminators of ECMAScript.
\<close>

definition is_space :: "jschar \<Rightarrow> bool" where
  "is_space c \<longleftrightarrow>
     c = 0x09 \<or> c = 0x0A \<or> c = 0x0B \<or> c = 0x0C \<or> c = 0x0D \<or> c = 0x20 \<or>
     c = 0xA0 \<or> c = 0x1680 \<or> (0x2000 \<le> c \<and> c \<le> 0x200A) \<or>
     c = 0x2028 \<or> c = 0x2029 \<or> c = 0x202F \<or> c = 0x205F \<or> c = 0x3000 \<or>
     c = 0xFEFF"

text \<open>The class \<^verbatim>\<open>\w\<close> (no \<^verbatim>\<open>u\<close> flag): ASCII letters, digits and the underscore.\<close>

definition is_upper :: "jschar \<Rightarrow> bool" where
  "is_upper c \<longleftrightarrow> 0x41 \<le> c \<and> c \<le> 0x5A"

definition is_lower :: "jschar \<Rightarrow> bool" where
  "is_lower c \<longleftrightarrow> 0x61 \<le> c \<and> c \<le> 0x7A"

definition is_word :: "jschar \<Rightarrow> bool" where
  "is_word c \<longleftrightarrow> is_upper c \<or> is_lower c \<or> (0x30 \<le> c \<and> c \<le> 0x39) \<or> c = 0x5F"

text \<open>
  Matching a pattern character under the \<^verbatim>\<open>i\<close> flag without the \<^verbatim>\<open>u\<close> flag.
  ECMAScript compares the canonical (upper case) forms, and a code unit of 128 or more
  is never mapped to one below 128: an ASCII letter of a pattern matches its two ASCII
  cases only, and every other pattern character of the source (apostrophes, the space,
  the full stop) matches itself only.
\<close>

definition chr_eq :: "bool \<Rightarrow> jschar \<Rightarrow> jschar \<Rightarrow> bool" where
  "chr_eq ci c d \<longleftrightarrow>
     d = c \<or> (ci \<and> ((is_lower c \<and> d = c - 0x20) \<or> (is_upper c \<and> d = c + 0x20)))"

text \<open>\<^verbatim>\<open>String.prototype.trim\<close>.\<close>

definition js_trim :: "jsstr \<Rightarrow> jsstr" where
  "js_trim s = rev (dropWhile is_space (rev (dropWhile is_space s)))"

section \<open>Regular expressions as the source writes them\<close>

text \<open>
  The fragment of ECMAScript regular expressions that \<^verbatim>\<open>src/index.js\<close> uses.
  Every \<^verbatim>\<open>*\<close> and \<^verbatim>\<open>+\<close> of the source stands on a character class, so \<open>Star\<close> and
  \<open>Plus\<close> take a class. \<open>Bnd\<close> is \<^verbatim>\<open>\b\<close>, \<open>Bol\<close> is \<^verbatim>\<open>^\<close>, \<open>Eol\<close> is \<^verbatim>\<open>$\<close>.
\<close>

datatype re =
    Chr jschar
  | Cls "jschar \<Rightarrow> bool"
  | Seq re re
  | Alt re re
  | Opt re
  | Star "jschar \<Rightarrow> bool"
  | Plus "jschar \<Rightarrow> bool"
  | Bnd
  | Bol
  | Eol

text \<open>
  A position in the input: the code unit before it (\<open>None\<close> at the start of the
  input) and the input that is left.
\<close>

type_synonym mstate = "jschar option \<times> jsstr"

text \<open>Greedy repetition of a class: the longest run first, then each shorter one.\<close>

fun star :: "(jschar \<Rightarrow> bool) \<Rightarrow> mstate \<Rightarrow> mstate list" where
  "star P (p, []) = [(p, [])]"
| "star P (p, d # t) = (if P d then star P (Some d, t) @ [(p, d # t)] else [(p, d # t)])"

definition word_before :: "mstate \<Rightarrow> bool" where
  "word_before st = (case fst st of None \<Rightarrow> False | Some c \<Rightarrow> is_word c)"

definition word_after :: "mstate \<Rightarrow> bool" where
  "word_after st = (case snd st of [] \<Rightarrow> False | c # _ \<Rightarrow> is_word c)"

text \<open>
  The backtracking matcher: all the positions at which a match of \<open>r\<close> that starts
  at \<open>st\<close> can end, in the order in which backtracking tries them. The head of the
  list is the match that ECMAScript reports. An optional group that matched the empty
  string is rejected, as the empty check of the repeat matcher does.
\<close>

fun rm :: "bool \<Rightarrow> re \<Rightarrow> mstate \<Rightarrow> mstate list" where
  "rm ci (Chr c) st =
     (case snd st of [] \<Rightarrow> [] | d # t \<Rightarrow> if chr_eq ci c d then [(Some d, t)] else [])"
| "rm ci (Cls P) st =
     (case snd st of [] \<Rightarrow> [] | d # t \<Rightarrow> if P d then [(Some d, t)] else [])"
| "rm ci (Seq a b) st = concat (map (rm ci b) (rm ci a st))"
| "rm ci (Alt a b) st = rm ci a st @ rm ci b st"
| "rm ci (Opt a) st = filter (\<lambda>st'. length (snd st') \<noteq> length (snd st)) (rm ci a st) @ [st]"
| "rm ci (Star P) st = star P st"
| "rm ci (Plus P) st =
     (case snd st of [] \<Rightarrow> [] | d # t \<Rightarrow> if P d then star P (Some d, t) else [])"
| "rm ci Bnd st = (if word_before st \<noteq> word_after st then [st] else [])"
| "rm ci Bol st = (if fst st = None then [st] else [])"
| "rm ci Eol st = (if snd st = [] then [st] else [])"

text \<open>
  \<^verbatim>\<open>RegExp.prototype.exec\<close> without the \<^verbatim>\<open>g\<close> and \<^verbatim>\<open>y\<close> flags: the start positions
  are tried from left to right. The result is the text before the match and the text
  after it.
\<close>

fun re_search :: "bool \<Rightarrow> re \<Rightarrow> jsstr \<Rightarrow> mstate \<Rightarrow> (jsstr \<times> jsstr) option" where
  "re_search ci r pre (p, []) =
     (case rm ci r (p, []) of
        m # _ \<Rightarrow> Some (rev pre, snd m)
      | [] \<Rightarrow> None)"
| "re_search ci r pre (p, d # t) =
     (case rm ci r (p, d # t) of
        m # _ \<Rightarrow> Some (rev pre, snd m)
      | [] \<Rightarrow> re_search ci r (d # pre) (Some d, t))"

definition re_exec :: "bool \<Rightarrow> re \<Rightarrow> jsstr \<Rightarrow> (jsstr \<times> jsstr) option" where
  "re_exec ci r s = re_search ci r [] (None, s)"

text \<open>\<^verbatim>\<open>r.test(s)\<close>.\<close>

definition re_test :: "bool \<Rightarrow> re \<Rightarrow> jsstr \<Rightarrow> bool" where
  "re_test ci r s = (re_exec ci r s \<noteq> None)"

text \<open>\<^verbatim>\<open>s.replace(r, "")\<close> for a regular expression without the \<^verbatim>\<open>g\<close> flag.\<close>

definition re_remove :: "bool \<Rightarrow> re \<Rightarrow> jsstr \<Rightarrow> jsstr" where
  "re_remove ci r s = (case re_exec ci r s of None \<Rightarrow> s | Some (b, a) \<Rightarrow> b @ a)"

text \<open>Writing patterns: a literal word, a sequence and an alternation of several parts.\<close>

fun Seqs :: "re list \<Rightarrow> re" where
  "Seqs [r] = r"
| "Seqs (r # rs) = Seq r (Seqs rs)"
| "Seqs [] = Opt (Cls (\<lambda>_. False))"

fun Alts :: "re list \<Rightarrow> re" where
  "Alts [r] = r"
| "Alts (r # rs) = Alt r (Alts rs)"
| "Alts [] = Cls (\<lambda>_. False)"

definition Str :: "string \<Rightarrow> re" where
  "Str s = Seqs (map Chr (js s))"

definition one_of :: "jsstr \<Rightarrow> jschar \<Rightarrow> bool" where
  "one_of cs c \<longleftrightarrow> c \<in> set cs"

section \<open>The phrase stripper\<close>

text \<open>The apostrophes of the source: \<^verbatim>\<open>'\<close>, the typographic \<open>U+2019\<close> and the backtick.\<close>

definition apos :: jschar where "apos = 0x27"
definition rsquo :: jschar where "rsquo = 0x2019"
definition backtick :: jschar where "backtick = 0x60"

text \<open>The class \<^verbatim>\<open>[\s,.:;!()-]\<close> that ends the rules 1 to 4.\<close>

definition sep_class :: "jschar \<Rightarrow> bool" where
  "sep_class c \<longleftrightarrow> is_space c \<or> one_of (js '',.:;!()-'') c"

text \<open>\<^verbatim>\<open>/^\s+/\<close>\<close>

definition re_ws :: re where
  "re_ws = Seq Bol (Plus is_space)"

text \<open>\<^verbatim>\<open>/^(?:I\s*(?:don'?t|don\u2019t|do\s+not|do not|do|dont|i\s+don))\b[\s,.:;!()-]*/i\<close>\<close>

definition re_negation :: re where
  "re_negation =
     Seqs [Bol,
           Seqs [Str ''I'', Star is_space,
                 Alts [Seqs [Str ''don'', Opt (Chr apos), Str ''t''],
                       Seqs [Str ''don'', Chr rsquo, Str ''t''],
                       Seqs [Str ''do'', Plus is_space, Str ''not''],
                       Str ''do not'',
                       Str ''do'',
                       Str ''dont'',
                       Seqs [Str ''i'', Plus is_space, Str ''don'']]],
           Bnd, Star sep_class]"

text \<open>\<^verbatim>\<open>/^(?:know(?:\s+based\s+on\s+the\s+provided\s+documents\.?)?|\bknow\b)[\s,.:;!()-]*/i\<close>\<close>

definition re_know :: re where
  "re_know =
     Seqs [Bol,
           Alts [Seqs [Str ''know'',
                       Opt (Seqs [Plus is_space, Str ''based'', Plus is_space, Str ''on'',
                                  Plus is_space, Str ''the'', Plus is_space, Str ''provided'',
                                  Plus is_space, Str ''documents'', Opt (Str ''.'')])],
                 Seqs [Bnd, Str ''know'', Bnd]],
           Star sep_class]"

text \<open>\<^verbatim>\<open>/^(?:n'?t|['\u2019`\u2019]t|n\u2019t)\b[\s,.:;!()-]*/i\<close>\<close>

definition re_contraction :: re where
  "re_contraction =
     Seqs [Bol,
           Alts [Seqs [Str ''n'', Opt (Chr apos), Str ''t''],
                 Seqs [Cls (one_of [apos, rsquo, backtick, rsquo]), Str ''t''],
                 Seqs [Str ''n'', Chr rsquo, Str ''t'']],
           Bnd, Star sep_class]"

text \<open>\<^verbatim>\<open>/^(?:don|i|i\s+don)\b[\s,.:;!()-]*/i\<close>\<close>

definition re_leftover :: re where
  "re_leftover =
     Seqs [Bol,
           Alts [Str ''don'', Str ''i'', Seqs [Str ''i'', Plus is_space, Str ''don'']],
           Bnd, Star sep_class]"

text \<open>\<^verbatim>\<open>/^[\s"'`\u2019\u2019\.\,\:\;\-\(\)]+/\<close>\<close>

definition punct_class :: "jschar \<Rightarrow> bool" where
  "punct_class c \<longleftrightarrow>
     is_space c \<or> c = 0x22 \<or> one_of [apos, backtick, rsquo, rsquo] c \<or> one_of (js ''.,:;-()'') c"

definition re_punct :: re where
  "re_punct = Seq Bol (Plus punct_class)"

text \<open>
  \<^verbatim>\<open>stripLeadingPhrases\<close>: an empty text is returned as it is, and each of the six
  replacements is made once, in the order of the source.
\<close>

definition stripLeadingPhrases :: "jsstr \<Rightarrow> jsstr" where
  "stripLeadingPhrases text =
     (if text = [] then text
      else
        let t = text;
            t = re_remove False re_ws t;
            t = re_remove True re_negation t;
            t = re_remove True re_know t;
            t = re_remove True re_contraction t;
            t = re_remove True re_leftover t;
            t = re_remove False re_punct t
        in t)"

text \<open>
  The code units on which a rule of the stripper can start a match: what rule 0 and
  rule 5 remove, and the first letters of the rules 1 to 4.
\<close>

definition rule_start :: "jschar \<Rightarrow> bool" where
  "rule_start c \<longleftrightarrow> punct_class c \<or> one_of (js ''iIkKnNdD'') c"

section \<open>The chitchat classifier\<close>

text \<open>
  \<^verbatim>\<open>String.prototype.toLowerCase\<close> belongs to the host. It follows the case tables of
  Unicode, which are not part of the repository: it can change the length of a string
  (\<open>U+0130\<close> becomes the two code units \<open>i\<close> and \<open>U+0307\<close>) and it can map a code unit
  outside ASCII to an ASCII letter (\<open>U+212A\<close> becomes \<open>k\<close>). The classifier takes it as a
  parameter, and nothing is assumed of it but what a theorem states.

  \<open>asciiLowerCase\<close> is what \<^verbatim>\<open>toLowerCase\<close> does to a string of ASCII code units. It
  stands for the host's function where a statement is evaluated on an ASCII question.
\<close>

definition asciiLowerCase :: "jsstr \<Rightarrow> jsstr" where
  "asciiLowerCase s = map (\<lambda>c. if is_upper c then c + 0x20 else c) s"

text \<open>
  \<^verbatim>\<open>/^(hi|hello|hey|iya|hallo|good (morning|afternoon|evening)|thanks|thank you|bye|goodbye|sup|yo|what's up|whats up)[\s!.,?]*$/i\<close>
\<close>

definition greetingRegex :: re where
  "greetingRegex =
     Seqs [Bol,
           Alts [Str ''hi'', Str ''hello'', Str ''hey'', Str ''iya'', Str ''hallo'',
                 Seqs [Str ''good '', Alts [Str ''morning'', Str ''afternoon'', Str ''evening'']],
                 Str ''thanks'', Str ''thank you'', Str ''bye'', Str ''goodbye'', Str ''sup'',
                 Str ''yo'', Seqs [Str ''what'', Chr apos, Str ''s up''], Str ''whats up''],
           Star (\<lambda>c. is_space c \<or> one_of (js ''!.,?'') c),
           Eol]"

text \<open>\<^verbatim>\<open>/\b(who|what|when|where|why|how|which|whom|whose)\b/i\<close>\<close>

definition questionWords :: re where
  "questionWords =
     Seqs [Bnd,
           Alts [Str ''who'', Str ''what'', Str ''when'', Str ''where'', Str ''why'', Str ''how'',
                 Str ''which'', Str ''whom'', Str ''whose''],
           Bnd]"

text \<open>
  \<^verbatim>\<open>s.split(/\s+/)\<close>: the pieces between the maximal runs of white space, the empty
  piece before a leading run and after a trailing one included.
\<close>

function split_ws :: "jsstr \<Rightarrow> jsstr \<Rightarrow> jsstr list" where
  "split_ws cur [] = [rev cur]"
| "split_ws cur (c # t) =
     (if is_space c then rev cur # split_ws [] (dropWhile is_space t)
      else split_ws (c # cur) t)"
  by pat_completeness auto
termination
  by (relation "measure (\<lambda>(cur, s). length s)") (auto simp: length_dropWhile_le less_Suc_eq_le)

definition isLikelyChitchat :: "(jsstr \<Rightarrow> jsstr) \<Rightarrow> jsstr \<Rightarrow> bool" where
  "isLikelyChitchat toLowerCase question =
     (if question = [] then False
      else
        let s = toLowerCase (js_trim question) in
        if re_test True greetingRegex s then True
        else
          let tokens = filter (\<lambda>t. t \<noteq> []) (split_ws [] s) in
          if length tokens = 1 \<and> length (hd tokens) \<le> 4 then True
          else if length s \<le> 10 \<and> \<not> re_test True questionWords s then True
          else False)"

section \<open>The vector store and the retrieval policy\<close>

text \<open>
  A score is read as the real number that its double stands for: the policy only
  compares scores with each other and with constants. The constants are read as the
  decimal fractions of the source text; the doubles that JavaScript compares with are the
  nearest ones, so a score that is exactly such a double can fall on the other side of a
  threshold, and no statement below depends on the value of a threshold. A score that
  is not a number is outside the model. The arithmetic of
  \<^verbatim>\<open>cosineSimilarity\<close> is floating point and is not modelled: the similarity is a
  parameter of the model, and so is \<^verbatim>\<open>fetchEmbedding\<close>, a call to the embedding
  provider that returns a vector or throws.
\<close>

type_synonym embedding = "real list"

record document =
  pageContent :: jsstr

record scored =
  doc :: "document option"
  score :: real

record vectorStore =
  vectors :: "embedding list"
  documents :: "document list"

datatype error = EmbeddingFailure | TypeError

text \<open>A query of the similarity index, recorded when \<^verbatim>\<open>getScoresForQuery\<close> is called.\<close>

datatype call = IndexQuery jsstr

text \<open>\<^verbatim>\<open>this.documents[i]\<close>: \<^verbatim>\<open>undefined\<close> (here \<open>None\<close>) out of range.\<close>

definition nth_opt :: "'a list \<Rightarrow> nat \<Rightarrow> 'a option" where
  "nth_opt xs i = (if i < length xs then Some (xs ! i) else None)"

text \<open>\<^verbatim>\<open>addVectors\<close> appends to both lists.\<close>

definition addVectors :: "embedding list \<Rightarrow> document list \<Rightarrow> vectorStore \<Rightarrow> vectorStore" where
  "addVectors vs ds st = st\<lparr>vectors := vectors st @ vs, documents := documents st @ ds\<rparr>"

text \<open>
  \<^verbatim>\<open>getScoresForQuery\<close>: one score for each vector, then the stable sort with the
  comparator \<^verbatim>\<open>b.score - a.score\<close>, the highest score first.
\<close>

definition getScoresForQuery ::
  "(jsstr \<Rightarrow> error + embedding) \<Rightarrow> (embedding \<Rightarrow> embedding \<Rightarrow> real) \<Rightarrow> vectorStore \<Rightarrow> jsstr
     \<Rightarrow> call list \<times> (error + scored list)" where
  "getScoresForQuery fetchEmbedding cosineSimilarity st query =
     ([IndexQuery query],
      case fetchEmbedding query of
        Inl e \<Rightarrow> Inl e
      | Inr qEmbedding \<Rightarrow>
          Inr (sort_key (\<lambda>s. - score s)
                 (map (\<lambda>(i, vec). \<lparr>doc = nth_opt (documents st) i,
                                    score = cosineSimilarity vec qEmbedding\<rparr>)
                      (enumerate 0 (vectors st)))))"

text \<open>
  \<^verbatim>\<open>xs.slice(0, k)\<close> for an integer \<open>k\<close>: a negative \<open>k\<close> counts from the end.
\<close>

definition slice0 :: "int \<Rightarrow> 'a list \<Rightarrow> 'a list" where
  "slice0 k xs = (if k < 0 then take (nat (int (length xs) + k)) xs else take (nat k) xs)"

text \<open>\<^verbatim>\<open>scores[0]?.score || 0\<close>\<close>

definition topScoreOf :: "scored list \<Rightarrow> real" where
  "topScoreOf scores = (case scores of [] \<Rightarrow> 0 | s # _ \<Rightarrow> score s)"

text \<open>
  \<^verbatim>\<open>getRelevantDocuments\<close> of the retriever that \<^verbatim>\<open>asRetriever(topK, minScore)\<close>
  returns, on the scores of the query.
\<close>

definition relevantOf :: "int \<Rightarrow> real \<Rightarrow> scored list \<Rightarrow> document option list" where
  "relevantOf topK minScore scores =
     (let topScore = topScoreOf scores;
          threshold = (if topScore > 0.9 then 0.75 else if topScore > 0.8 then 0.7 else minScore);
          filtered = slice0 topK (filter (\<lambda>s. score s \<ge> threshold) scores);
          topMatches = slice0 topK scores;
          chosen = (if length filtered > 0 then filtered else topMatches)
      in map doc chosen)"

definition getRelevantDocuments ::
  "(jsstr \<Rightarrow> error + embedding) \<Rightarrow> (embedding \<Rightarrow> embedding \<Rightarrow> real) \<Rightarrow> vectorStore
     \<Rightarrow> int \<Rightarrow> real \<Rightarrow> jsstr \<Rightarrow> call list \<times> (error + document option list)" where
  "getRelevantDocuments fetchEmbedding cosineSimilarity st topK minScore query =
     (case getScoresForQuery fetchEmbedding cosineSimilarity st query of
        (calls, Inl e) \<Rightarrow> (calls, Inl e)
      | (calls, Inr scores) \<Rightarrow> (calls, Inr (relevantOf topK minScore scores)))"

section \<open>Routing a question\<close>

text \<open>The part of \<^verbatim>\<open>src/agent/agentConfig.js\<close> that the retrieval reads.\<close>

record agentConfig =
  topK :: int

definition config :: agentConfig where
  "config = \<lparr>topK = 4\<rparr>"

text \<open>
  The \<open>source\<close> argument of \<^verbatim>\<open>streamModelResponse\<close>: \<^verbatim>\<open>"docs"\<close> or \<^verbatim>\<open>"openai"\<close>, the two
  values that \<^verbatim>\<open>askDocsStream\<close> passes.
\<close>

datatype source = Docs | Openai

text \<open>
  The two prompts of \<^verbatim>\<open>askDocsStream\<close>: the general one holds the question, the
  document one the context (the chosen chunks joined by an empty line) and the
  question.
\<close>

datatype prompt = GeneralPrompt jsstr | DocsPrompt jsstr jsstr

text \<open>
  What \<^verbatim>\<open>askDocsStream\<close> hands to \<^verbatim>\<open>streamModelResponse\<close>, with the chunks it chose.
\<close>

record routing =
  r_source :: source
  r_prompt :: prompt
  r_chunks :: "document list"

text \<open>\<^verbatim>\<open>relevantDocs.map((d) => d.pageContent)\<close> throws on an undefined document.\<close>

fun pageContents :: "document option list \<Rightarrow> error + document list" where
  "pageContents [] = Inr []"
| "pageContents (None # ds) = Inl TypeError"
| "pageContents (Some d # ds) =
     (case pageContents ds of Inl e \<Rightarrow> Inl e | Inr r \<Rightarrow> Inr (d # r))"

text \<open>\<^verbatim>\<open>xs.join("\n\n")\<close>\<close>

fun join2 :: "jsstr list \<Rightarrow> jsstr" where
  "join2 [] = []"
| "join2 [x] = x"
| "join2 (x # xs) = x @ [0x0A, 0x0A] @ join2 xs"

text \<open>
  The branch of \<^verbatim>\<open>askDocsStream\<close> for a top score of at least
  \<^verbatim>\<open>MIN_SCORE_FOR_DOCS\<close>: the chunks it chooses, with \<^verbatim>\<open>config.topK || 5\<close> as the
  fan-out.
\<close>

definition fanOut :: "agentConfig \<Rightarrow> int" where
  "fanOut cfg = (if topK cfg = 0 then 5 else topK cfg)"

definition docsChosen :: "agentConfig \<Rightarrow> scored list \<Rightarrow> document option list" where
  "docsChosen cfg scores =
     (let topScore = topScoreOf scores;
          k = fanOut cfg;
          threshold = (if topScore > 0.9 then 0.75 else if topScore > 0.8 then 0.7 else 0.2);
          filtered = slice0 k (filter (\<lambda>s. score s \<ge> threshold) scores);
          chosen = (if length filtered > 0 then filtered else slice0 k scores)
      in map doc chosen)"

definition docsBranch :: "agentConfig \<Rightarrow> jsstr \<Rightarrow> scored list \<Rightarrow> error + routing" where
  "docsBranch cfg question scores =
     (case pageContents (docsChosen cfg scores) of
        Inl e \<Rightarrow> Inl e
      | Inr relevantDocs \<Rightarrow>
          Inr \<lparr>r_source = Docs,
               r_prompt = DocsPrompt (join2 (map pageContent relevantDocs)) question,
               r_chunks = relevantDocs\<rparr>)"

definition routeByScores :: "agentConfig \<Rightarrow> jsstr \<Rightarrow> scored list \<Rightarrow> error + routing" where
  "routeByScores cfg question scores =
     (if topScoreOf scores < 0.25 then
        Inr \<lparr>r_source = Openai, r_prompt = GeneralPrompt question, r_chunks = []\<rparr>
      else docsBranch cfg question scores)"

text \<open>
  \<^verbatim>\<open>askDocsStream\<close> up to its call of \<^verbatim>\<open>streamModelResponse\<close>, with the queries
  of the index that it made. What \<^verbatim>\<open>getScoresForQuery\<close> throws leaves the function.
  The host's \<^verbatim>\<open>toLowerCase\<close> is handed on to the classifier.
\<close>

definition askDocsStream ::
  "agentConfig \<Rightarrow> (jsstr \<Rightarrow> jsstr) \<Rightarrow> (jsstr \<Rightarrow> error + embedding)
     \<Rightarrow> (embedding \<Rightarrow> embedding \<Rightarrow> real)
     \<Rightarrow> jsstr \<Rightarrow> vectorStore \<Rightarrow> call list \<times> (error + routing)" where
  "askDocsStream cfg toLowerCase fetchEmbedding cosineSimilarity question st =
     (if isLikelyChitchat toLowerCase question then
        ([], Inr \<lparr>r_source = Openai, r_prompt = GeneralPrompt question, r_chunks = []\<rparr>)
      else
        (case getScoresForQuery fetchEmbedding cosineSimilarity st question of
           (calls, Inl e) \<Rightarrow> (calls, Inl e)
         | (calls, Inr scores) \<Rightarrow> (calls, routeByScores cfg question scores)))"

section \<open>The streaming response controller\<close>

text \<open>
  What \<^verbatim>\<open>res.write\<close> is called with: the comment line \<^verbatim>\<open>: processing\<close>, a content
  event \<^verbatim>\<open>data: {"source": ..., "content": ...}\<close>, the marker \<^verbatim>\<open>data: [DONE]\<close>, and the
  line \<^verbatim>\<open>data: Error: ...\<close> of a failed upstream call.
\<close>

datatype wire = Ping | Data source jsstr | DoneMarker | ErrorLine jsstr

text \<open>
  The sentence that \<^verbatim>\<open>streamModelResponse\<close> sends when a document answer never
  started. The source writes it with the typographic apostrophe \<open>U+2019\<close>.
\<close>

definition fallbackSentence :: jsstr where
  "fallbackSentence = js ''I don'' @ [rsquo] @ js ''t know based on the provided documents.''"

text \<open>
  A stream session: the variables that the closures of \<^verbatim>\<open>streamModelResponse\<close>
  share, its \<open>source\<close> argument, the state of the response object \<open>res\<close> (what was
  written, whether it was ended, its headers and listeners), the calls of
  \<^verbatim>\<open>reader.cancel\<close>, whether the one-shot start timer of the host is still to fire, and
  whether the read loop is still waiting for \<^verbatim>\<open>reader.read()\<close>.
\<close>

record session =
  buffer :: jsstr
  lastSentLen :: nat
  startedStreaming :: bool
  flushTimer :: bool
  startTimer :: bool
  headersSent :: bool
  ended :: bool
  statusPingSent :: bool
  clientClosed :: bool
  src :: source
  writableEnded :: bool
  written :: "wire list"
  resHeaders :: bool
  resFlushed :: bool
  endCalls :: nat
  closeListener :: bool
  errorListener :: bool
  cancels :: nat
  startPending :: bool
  running :: bool

text \<open>
  \<^verbatim>\<open>res.setHeader\<close> throws once the headers have gone out with the first write;
  \<^verbatim>\<open>ensureHeaders\<close> catches that and leaves \<open>headersSent\<close> as it is.
\<close>

definition ensureHeaders :: "session \<Rightarrow> session" where
  "ensureHeaders s =
     (if headersSent s \<or> writableEnded s \<or> clientClosed s then s
      else if resFlushed s then s
      else s\<lparr>resHeaders := True, headersSent := True\<rparr>)"

text \<open>\<^verbatim>\<open>res.write\<close> of a string does not throw: the guard is what keeps a write away.\<close>

definition safeWrite :: "wire \<Rightarrow> session \<Rightarrow> session" where
  "safeWrite d s =
     (if ended s \<or> writableEnded s \<or> clientClosed s then s
      else s\<lparr>written := written s @ [d], resFlushed := True\<rparr>)"

definition sendChunk :: "jsstr \<Rightarrow> session \<Rightarrow> session" where
  "sendChunk chunk s =
     (if chunk = [] \<or> ended s \<or> writableEnded s \<or> clientClosed s then s
      else
        let s = ensureHeaders s;
            s = (if \<not> statusPingSent s then (safeWrite Ping s)\<lparr>statusPingSent := True\<rparr> else s)
        in safeWrite (Data (src s) chunk) s)"

definition startPeriodicFlush :: "session \<Rightarrow> session" where
  "startPeriodicFlush s = (if \<not> flushTimer s then s\<lparr>flushTimer := True\<rparr> else s)"

definition clearTimers :: "session \<Rightarrow> session" where
  "clearTimers s =
     (let s = (if flushTimer s then s\<lparr>flushTimer := False\<rparr> else s)
      in if startTimer s then s\<lparr>startTimer := False, startPending := False\<rparr> else s)"

definition STREAM_START_THRESHOLD :: nat where "STREAM_START_THRESHOLD = 128"
definition MIN_SEND_DELTA :: int where "MIN_SEND_DELTA = 8"

definition flushIfNeeded :: "bool \<Rightarrow> session \<Rightarrow> session" where
  "flushIfNeeded force s =
     (if ended s \<or> writableEnded s \<or> clientClosed s then s
      else if \<not> startedStreaming s then
        let stripped = stripLeadingPhrases (buffer s) in
        if length (js_trim stripped) \<ge> STREAM_START_THRESHOLD
           \<or> (force \<and> length (js_trim stripped) > 0) then
          let s = s\<lparr>startedStreaming := True, buffer := stripped\<rparr>;
              toSend = js_trim (drop (lastSentLen s) (buffer s));
              s = (if toSend \<noteq> [] then (sendChunk toSend s)\<lparr>lastSentLen := length (buffer s)\<rparr>
                   else s)
          in startPeriodicFlush s
        else s
      else
        let newLen = length (buffer s);
            delta = int newLen - int (lastSentLen s) in
        if delta \<ge> MIN_SEND_DELTA \<or> force then
          let chunk = drop (lastSentLen s) (buffer s);
              chunk = stripLeadingPhrases chunk;
              chunk = js_trim chunk;
              s = (if chunk \<noteq> [] then sendChunk chunk s else s)
          in s\<lparr>lastSentLen := length (buffer s)\<rparr>
        else s)"

text \<open>
  \<^verbatim>\<open>onClientClose\<close>, the listener of \<^verbatim>\<open>close\<close> that the listener of \<^verbatim>\<open>error\<close> calls
  too. \<^verbatim>\<open>reader.cancel()\<close> is called each time; what it throws or rejects is swallowed.
\<close>

definition onClientClose :: "session \<Rightarrow> session" where
  "onClientClose s = s\<lparr>clientClosed := True, ended := True, cancels := cancels s + 1\<rparr>"

text \<open>
  One \<^verbatim>\<open>data: \<close> line of an upstream chunk, after \<^verbatim>\<open>JSON.parse\<close>: the marker
  \<^verbatim>\<open>[DONE]\<close>, a payload with the text of \<^verbatim>\<open>choices[0].delta.content\<close> (empty when
  there is none), or a line that does not parse and is skipped.
\<close>

datatype line = LDone | LContent jsstr | LSkip

text \<open>The body of the \<^verbatim>\<open>for\<close> loop over the lines of a chunk, document mode.\<close>

definition onContent :: "jsstr \<Rightarrow> session \<Rightarrow> session" where
  "onContent content s =
     (if content \<noteq> [] then
        let s = s\<lparr>buffer := buffer s @ content\<rparr>;
            s = (if \<not> startedStreaming s then s\<lparr>buffer := stripLeadingPhrases (buffer s)\<rparr>
                 else s)
        in flushIfNeeded False s
      else s)"

fun docsLines :: "line list \<Rightarrow> session \<Rightarrow> session" where
  "docsLines [] s = s"
| "docsLines (l # ls) s =
     (if clientClosed s then s
      else case l of
             LDone \<Rightarrow> s
           | LContent content \<Rightarrow> docsLines ls (onContent content s)
           | LSkip \<Rightarrow> docsLines ls s)"

text \<open>The same loop in general-knowledge mode: each content is written at once.\<close>

fun openaiLines :: "line list \<Rightarrow> session \<Rightarrow> session" where
  "openaiLines [] s = s"
| "openaiLines (l # ls) s =
     (if clientClosed s then s
      else case l of
             LDone \<Rightarrow> s
           | LContent content \<Rightarrow>
               openaiLines ls
                 (if content \<noteq> [] \<and> \<not> clientClosed s \<and> \<not> writableEnded s
                  then safeWrite (Data (src s) content) s else s)
           | LSkip \<Rightarrow> openaiLines ls s)"

text \<open>\<^verbatim>\<open>res.end()\<close>\<close>

definition resEnd :: "session \<Rightarrow> session" where
  "resEnd s = s\<lparr>writableEnded := True, endCalls := endCalls s + 1, resFlushed := True\<rparr>"

text \<open>The terminal marker and the end of the response, as both \<^verbatim>\<open>finally\<close> blocks do.\<close>

definition sendDone :: "session \<Rightarrow> session" where
  "sendDone s =
     (if \<not> ended s \<and> \<not> writableEnded s \<and> \<not> clientClosed s then resEnd (safeWrite DoneMarker s)
      else s)"

text \<open>
  The \<^verbatim>\<open>finally\<close> block of the general-knowledge loop. Its \<^verbatim>\<open>return\<close> leaves the
  function through the outer \<^verbatim>\<open>finally\<close> block, which runs next.
\<close>

definition finallyInner :: "session \<Rightarrow> session" where
  "finallyInner s =
     (let s = clearTimers s;
          s = sendDone s
      in s\<lparr>ended := True, closeListener := False\<rparr>)"

text \<open>The outer \<^verbatim>\<open>finally\<close> block: the forced flush, the fallback, the marker.\<close>

definition finallyOuter :: "session \<Rightarrow> session" where
  "finallyOuter s =
     (let s = clearTimers s;
          s = flushIfNeeded True s;
          s = (if \<not> startedStreaming s \<and> src s = Docs \<and> \<not> clientClosed s
               then sendChunk fallbackSentence (ensureHeaders s) else s);
          s = sendDone s
      in s\<lparr>ended := True, closeListener := False, running := False\<rparr>)"

text \<open>
  What can happen while the function waits for \<^verbatim>\<open>reader.read()\<close>, or after it has
  returned: the read resolves with a chunk (the list of its data lines), resolves with
  \<^verbatim>\<open>done\<close>, or rejects; the flush interval ticks; the start timeout fires; the
  response emits \<^verbatim>\<open>close\<close> or \<^verbatim>\<open>error\<close>. JavaScript runs each of these to its end
  before the next one.
\<close>

datatype event = Read "line list" | ReadDone | ReadError | Tick | StartTimeout | Close | ResError

definition leaveLoop :: "session \<Rightarrow> session" where
  "leaveLoop s = (if src s = Openai then finallyOuter (finallyInner s) else finallyOuter s)"

fun step :: "event \<Rightarrow> session \<Rightarrow> session" where
  "step (Read ls) s =
     (if \<not> running s then s
      else
        let s = (if src s = Openai then openaiLines ls s else docsLines ls s)
        in if clientClosed s then leaveLoop s else s)"
| "step ReadDone s = (if \<not> running s then s else leaveLoop s)"
| "step ReadError s = (if \<not> running s then s else leaveLoop s)"
| "step Tick s = (if flushTimer s then flushIfNeeded True s else s)"
| "step StartTimeout s =
     (if startPending s then
        let s = s\<lparr>startPending := False\<rparr>
        in if \<not> startedStreaming s \<and> \<not> clientClosed s then flushIfNeeded True s else s
      else s)"
| "step Close s = (if closeListener s then onClientClose s else s)"
| "step ResError s = (if errorListener s then onClientClose s else s)"

text \<open>The answer of the completion provider: a failed status, or a body to read.\<close>

datatype upstream = Failed jsstr | Streaming

text \<open>A response object that nothing was written to.\<close>

definition fresh :: "source \<Rightarrow> session" where
  "fresh source =
     \<lparr>buffer = [], lastSentLen = 0, startedStreaming = False, flushTimer = False,
      startTimer = False, headersSent = False, ended = False, statusPingSent = False,
      clientClosed = False, src = source, writableEnded = False, written = [],
      resHeaders = False, resFlushed = False, endCalls = 0, closeListener = False,
      errorListener = False, cancels = 0, startPending = False, running = False\<rparr>"

text \<open>
  \<^verbatim>\<open>streamModelResponse\<close> up to its first \<^verbatim>\<open>reader.read()\<close>. A failed upstream call
  writes the error line, ends the response and returns; no listener is registered.
\<close>

definition startSession :: "upstream \<Rightarrow> source \<Rightarrow> session" where
  "startSession response source =
     (case response of
        Failed statusText \<Rightarrow>
          (let s = fresh source in
           if \<not> writableEnded s then
             resEnd (s\<lparr>resHeaders := True, written := written s @ [ErrorLine statusText],
                       resFlushed := True\<rparr>)
           else s)
      | Streaming \<Rightarrow>
          (let s = (fresh source)\<lparr>closeListener := True, errorListener := True, running := True\<rparr>
           in if source = Openai then
                let s = ensureHeaders s
                in if \<not> statusPingSent s then (safeWrite Ping s)\<lparr>statusPingSent := True\<rparr> else s
              else s\<lparr>startTimer := True, startPending := True\<rparr>))"

text \<open>A whole session: the start, then the events in the order in which they happen.\<close>

definition streamModelResponse :: "upstream \<Rightarrow> source \<Rightarrow> event list \<Rightarrow> session" where
  "streamModelResponse response source evs = foldl (\<lambda>s e. step e s) (startSession response source) evs"

text \<open>The contents of the content events among what was written.\<close>

fun contents :: "wire list \<Rightarrow> jsstr list" where
  "contents [] = []"
| "contents (Data _ c # ws) = c # contents ws"
| "contents (_ # ws) = contents ws"

section \<open>Observations on a session\<close>

text \<open>
  The guard of \<^verbatim>\<open>safeWrite\<close>, \<^verbatim>\<open>sendChunk\<close> and \<^verbatim>\<open>flushIfNeeded\<close>: nothing is written when it
  holds.
\<close>

definition blocked :: "session \<Rightarrow> bool" where
  "blocked s \<longleftrightarrow> ended s \<or> writableEnded s \<or> clientClosed s"

text \<open>The number of terminal markers among what was written.\<close>

definition dones :: "session \<Rightarrow> nat" where
  "dones s = count_list (written s) DoneMarker"

text \<open>
  What holds of the terminal marker in every state of a session. While the read loop
  waits, no marker is written, the response is not ended, and \<open>ended\<close> is set by a
  disconnect only; afterwards no write gets past the guard, and a session whose client
  is still connected has written the marker once.
\<close>

definition done_inv :: "session \<Rightarrow> bool" where
  "done_inv s \<longleftrightarrow>
     (if running s
      then dones s = 0 \<and> \<not> writableEnded s \<and> (ended s \<longrightarrow> clientClosed s) \<and> errorListener s
      else (ended s \<or> writableEnded s) \<and> dones s \<le> 1
           \<and> (errorListener s \<and> \<not> clientClosed s \<longrightarrow> dones s = 1))"

text \<open>
  What holds of the sent length in every state of a session: it is within the buffer,
  and it is zero until streaming has started.
\<close>

definition sent_inv :: "session \<Rightarrow> bool" where
  "sent_inv s \<longleftrightarrow>
     lastSentLen s \<le> length (buffer s) \<and> (\<not> startedStreaming s \<longrightarrow> lastSentLen s = 0)"

text \<open>The events that signal a disconnect: \<^verbatim>\<open>close\<close> and \<^verbatim>\<open>error\<close> on the response.\<close>

fun is_disconnect :: "event \<Rightarrow> bool" where
  "is_disconnect Close = True"
| "is_disconnect ResError = True"
| "is_disconnect _ = False"

text \<open>
  What holds of a document session on a streamed answer. Until streaming starts nothing
  is written, not even the comment line; and a session that has left its loop without
  ever starting, its client still connected, has written the fallback and the marker.
\<close>

definition fallback_inv :: "session \<Rightarrow> bool" where
  "fallback_inv s \<longleftrightarrow>
     src s = Docs \<and>
     (if running s
      then \<not> writableEnded s \<and> (ended s \<longrightarrow> clientClosed s)
           \<and> (\<not> startedStreaming s \<longrightarrow> written s = [] \<and> \<not> statusPingSent s)
      else ended s
           \<and> (\<not> startedStreaming s \<and> \<not> clientClosed s
                \<longrightarrow> written s = [Ping, Data Docs fallbackSentence, DoneMarker]))"

section \<open>Facts about the matcher\<close>

lemmas class_defs = is_space_def sep_class_def punct_class_def one_of_def chr_eq_def
  is_lower_def is_upper_def is_word_def word_before_def word_after_def apos_def rsquo_def
  backtick_def js_def Str_def

lemmas strip_defs = stripLeadingPhrases_def re_remove_def re_exec_def re_ws_def
  re_negation_def re_know_def re_contraction_def re_leftover_def re_punct_def



text \<open>A pattern that begins with \<^verbatim>\<open>^\<close> matches at the start of the input or nowhere.\<close>

lemma re_search_Bol_later: "re_search ci (Seq Bol r) pre (Some c, t) = None"
  by (induction t arbitrary: c pre) simp_all

lemma re_exec_Bol:
  "re_exec ci (Seq Bol r) s =
     (case rm ci (Seq Bol r) (None, s) of [] \<Rightarrow> None | m # _ \<Rightarrow> Some ([], snd m))"
  by (cases s) (simp_all add: re_exec_def re_search_Bol_later split: list.splits)



lemma re_remove_no_match:
  "rm ci (Seq Bol r) (None, s) = [] \<Longrightarrow> re_remove ci (Seq Bol r) s = s"
  by (simp add: re_remove_def re_exec_Bol)

section \<open>The phrase stripper: what it removes\<close>



text \<open>No rule matches on a text that begins with a code unit outside \<open>rule_start\<close>.\<close>

lemma ws_fix: "\<not> rule_start c \<Longrightarrow> re_remove False re_ws (c # t) = c # t"
  unfolding re_ws_def
  by (rule re_remove_no_match) (auto simp add: rule_start_def class_defs)

lemma negation_fix: "\<not> rule_start c \<Longrightarrow> re_remove True re_negation (c # t) = c # t"
  unfolding re_negation_def Seqs.simps
  by (rule re_remove_no_match) (auto simp add: rule_start_def class_defs)

lemma know_fix: "\<not> rule_start c \<Longrightarrow> re_remove True re_know (c # t) = c # t"
  unfolding re_know_def Seqs.simps
  by (rule re_remove_no_match) (auto simp add: rule_start_def class_defs)

lemma contraction_fix: "\<not> rule_start c \<Longrightarrow> re_remove True re_contraction (c # t) = c # t"
  unfolding re_contraction_def Seqs.simps
  by (rule re_remove_no_match) (auto simp add: rule_start_def class_defs)

lemma leftover_fix: "\<not> rule_start c \<Longrightarrow> re_remove True re_leftover (c # t) = c # t"
  unfolding re_leftover_def Seqs.simps
  by (rule re_remove_no_match) (auto simp add: rule_start_def class_defs)

lemma punct_fix: "\<not> rule_start c \<Longrightarrow> re_remove False re_punct (c # t) = c # t"
  unfolding re_punct_def
  by (rule re_remove_no_match) (auto simp add: rule_start_def class_defs)

lemma strip_fix: "\<not> rule_start c \<Longrightarrow> stripLeadingPhrases (c # t) = c # t"
  by (simp add: stripLeadingPhrases_def ws_fix negation_fix know_fix contraction_fix
      leftover_fix punct_fix)

lemma strip_Nil: "stripLeadingPhrases [] = []"
  by (simp add: stripLeadingPhrases_def)

text \<open>
  C3, as the source has it. Each rule is applied once in a call, so a second call can
  remove what the first one uncovered: the stripper is not idempotent. It is idempotent
  wherever its result is empty or begins with a code unit on which no rule can start
  a match, that is with anything but white space, one of the letters i, d, k, n in
  either case, and the characters \<^verbatim>\<open>" ' ` . , : ; - ( )\<close> and \<open>U+2019\<close>.
\<close>

theorem stripLeadingPhrases_idempotent_when_settled:
  assumes "stripLeadingPhrases s = [] \<or> \<not> rule_start (hd (stripLeadingPhrases s))"
  shows "stripLeadingPhrases (stripLeadingPhrases s) = stripLeadingPhrases s"
proof (cases "stripLeadingPhrases s")
  case Nil
  then show ?thesis by (simp add: strip_Nil)
next
  case (Cons c t)
  with assms have "\<not> rule_start c" by simp
  with Cons show ?thesis by (simp add: strip_fix)
qed

theorem stripLeadingPhrases_idempotent_witness:
  "stripLeadingPhrases (js ''I don't know, Paris'') = js ''Paris''
   \<and> \<not> rule_start (hd (js ''Paris''))
   \<and> stripLeadingPhrases (js ''Paris'') = js ''Paris''"
proof -
  have a: "stripLeadingPhrases (js ''I don't know, Paris'') = js ''Paris''"
    by (simp add: strip_defs class_defs)
  have b: "\<not> rule_start (hd (js ''Paris''))"
    by (simp add: rule_start_def class_defs)
  from stripLeadingPhrases_idempotent_when_settled [of "js ''I don't know, Paris''"] a b
  show ?thesis by simp
qed

text \<open>
  The claim as it is stated fails: of \<^verbatim>\<open>know know x\<close> the first call leaves
  \<^verbatim>\<open>know x\<close>, and the second one \<^verbatim>\<open>x\<close>.
\<close>

theorem stripLeadingPhrases_not_idempotent:
  "stripLeadingPhrases (js ''know know x'') = js ''know x''
   \<and> stripLeadingPhrases (stripLeadingPhrases (js ''know know x'')) = js ''x''
   \<and> js ''know x'' \<noteq> js ''x''"
  by (simp add: strip_defs class_defs)

section \<open>The session: what each operation leaves as it is\<close>

lemma safeWrite_frame [simp]:
  "clientClosed (safeWrite d s) = clientClosed s"
  "ended (safeWrite d s) = ended s"
  "writableEnded (safeWrite d s) = writableEnded s"
  "running (safeWrite d s) = running s"
  "src (safeWrite d s) = src s"
  "cancels (safeWrite d s) = cancels s"
  "closeListener (safeWrite d s) = closeListener s"
  "errorListener (safeWrite d s) = errorListener s"
  "startedStreaming (safeWrite d s) = startedStreaming s"
  "buffer (safeWrite d s) = buffer s"
  "lastSentLen (safeWrite d s) = lastSentLen s"
  "statusPingSent (safeWrite d s) = statusPingSent s"
  "flushTimer (safeWrite d s) = flushTimer s"
  "startTimer (safeWrite d s) = startTimer s"
  "startPending (safeWrite d s) = startPending s"
  by (simp_all add: safeWrite_def)

lemma ensureHeaders_frame [simp]:
  "clientClosed (ensureHeaders s) = clientClosed s"
  "ended (ensureHeaders s) = ended s"
  "writableEnded (ensureHeaders s) = writableEnded s"
  "running (ensureHeaders s) = running s"
  "src (ensureHeaders s) = src s"
  "cancels (ensureHeaders s) = cancels s"
  "closeListener (ensureHeaders s) = closeListener s"
  "errorListener (ensureHeaders s) = errorListener s"
  "startedStreaming (ensureHeaders s) = startedStreaming s"
  "buffer (ensureHeaders s) = buffer s"
  "lastSentLen (ensureHeaders s) = lastSentLen s"
  "statusPingSent (ensureHeaders s) = statusPingSent s"
  "flushTimer (ensureHeaders s) = flushTimer s"
  "startTimer (ensureHeaders s) = startTimer s"
  "startPending (ensureHeaders s) = startPending s"
  "written (ensureHeaders s) = written s"
  by (simp_all add: ensureHeaders_def)

lemma sendChunk_frame [simp]:
  "clientClosed (sendChunk c s) = clientClosed s"
  "ended (sendChunk c s) = ended s"
  "writableEnded (sendChunk c s) = writableEnded s"
  "running (sendChunk c s) = running s"
  "src (sendChunk c s) = src s"
  "cancels (sendChunk c s) = cancels s"
  "closeListener (sendChunk c s) = closeListener s"
  "errorListener (sendChunk c s) = errorListener s"
  "startedStreaming (sendChunk c s) = startedStreaming s"
  "buffer (sendChunk c s) = buffer s"
  "lastSentLen (sendChunk c s) = lastSentLen s"
  "flushTimer (sendChunk c s) = flushTimer s"
  "startTimer (sendChunk c s) = startTimer s"
  "startPending (sendChunk c s) = startPending s"
  by (simp_all add: sendChunk_def Let_def)

lemma startPeriodicFlush_frame [simp]:
  "clientClosed (startPeriodicFlush s) = clientClosed s"
  "ended (startPeriodicFlush s) = ended s"
  "writableEnded (startPeriodicFlush s) = writableEnded s"
  "running (startPeriodicFlush s) = running s"
  "src (startPeriodicFlush s) = src s"
  "cancels (startPeriodicFlush s) = cancels s"
  "closeListener (startPeriodicFlush s) = closeListener s"
  "errorListener (startPeriodicFlush s) = errorListener s"
  "startedStreaming (startPeriodicFlush s) = startedStreaming s"
  "buffer (startPeriodicFlush s) = buffer s"
  "lastSentLen (startPeriodicFlush s) = lastSentLen s"
  "statusPingSent (startPeriodicFlush s) = statusPingSent s"
  "startTimer (startPeriodicFlush s) = startTimer s"
  "startPending (startPeriodicFlush s) = startPending s"
  "written (startPeriodicFlush s) = written s"
  by (simp_all add: startPeriodicFlush_def)

lemma clearTimers_frame [simp]:
  "clientClosed (clearTimers s) = clientClosed s"
  "ended (clearTimers s) = ended s"
  "writableEnded (clearTimers s) = writableEnded s"
  "running (clearTimers s) = running s"
  "src (clearTimers s) = src s"
  "cancels (clearTimers s) = cancels s"
  "closeListener (clearTimers s) = closeListener s"
  "errorListener (clearTimers s) = errorListener s"
  "startedStreaming (clearTimers s) = startedStreaming s"
  "buffer (clearTimers s) = buffer s"
  "lastSentLen (clearTimers s) = lastSentLen s"
  "statusPingSent (clearTimers s) = statusPingSent s"
  "written (clearTimers s) = written s"
  by (simp_all add: clearTimers_def Let_def)

lemma flushIfNeeded_frame [simp]:
  "clientClosed (flushIfNeeded f s) = clientClosed s"
  "ended (flushIfNeeded f s) = ended s"
  "writableEnded (flushIfNeeded f s) = writableEnded s"
  "running (flushIfNeeded f s) = running s"
  "src (flushIfNeeded f s) = src s"
  "cancels (flushIfNeeded f s) = cancels s"
  "closeListener (flushIfNeeded f s) = closeListener s"
  "errorListener (flushIfNeeded f s) = errorListener s"
  "startTimer (flushIfNeeded f s) = startTimer s"
  "startPending (flushIfNeeded f s) = startPending s"
  by (simp_all add: flushIfNeeded_def Let_def)

lemma onContent_frame [simp]:
  "clientClosed (onContent c s) = clientClosed s"
  "ended (onContent c s) = ended s"
  "writableEnded (onContent c s) = writableEnded s"
  "running (onContent c s) = running s"
  "src (onContent c s) = src s"
  "cancels (onContent c s) = cancels s"
  "closeListener (onContent c s) = closeListener s"
  "errorListener (onContent c s) = errorListener s"
  "startTimer (onContent c s) = startTimer s"
  "startPending (onContent c s) = startPending s"
  by (simp_all add: onContent_def Let_def)

lemma docsLines_frame [simp]:
  "clientClosed (docsLines ls s) = clientClosed s"
  "ended (docsLines ls s) = ended s"
  "writableEnded (docsLines ls s) = writableEnded s"
  "running (docsLines ls s) = running s"
  "src (docsLines ls s) = src s"
  "cancels (docsLines ls s) = cancels s"
  "closeListener (docsLines ls s) = closeListener s"
  "errorListener (docsLines ls s) = errorListener s"
  "startTimer (docsLines ls s) = startTimer s"
  "startPending (docsLines ls s) = startPending s"
  by (induction ls arbitrary: s; simp split: line.splits)+

lemma openaiLines_frame [simp]:
  "clientClosed (openaiLines ls s) = clientClosed s"
  "ended (openaiLines ls s) = ended s"
  "writableEnded (openaiLines ls s) = writableEnded s"
  "running (openaiLines ls s) = running s"
  "src (openaiLines ls s) = src s"
  "cancels (openaiLines ls s) = cancels s"
  "closeListener (openaiLines ls s) = closeListener s"
  "errorListener (openaiLines ls s) = errorListener s"
  "startedStreaming (openaiLines ls s) = startedStreaming s"
  "buffer (openaiLines ls s) = buffer s"
  "lastSentLen (openaiLines ls s) = lastSentLen s"
  "statusPingSent (openaiLines ls s) = statusPingSent s"
  "flushTimer (openaiLines ls s) = flushTimer s"
  "startTimer (openaiLines ls s) = startTimer s"
  "startPending (openaiLines ls s) = startPending s"
  by (induction ls arbitrary: s; simp split: line.splits)+

lemma sendDone_frame [simp]:
  "clientClosed (sendDone s) = clientClosed s"
  "ended (sendDone s) = ended s"
  "running (sendDone s) = running s"
  "src (sendDone s) = src s"
  "cancels (sendDone s) = cancels s"
  "closeListener (sendDone s) = closeListener s"
  "errorListener (sendDone s) = errorListener s"
  "startedStreaming (sendDone s) = startedStreaming s"
  "buffer (sendDone s) = buffer s"
  "lastSentLen (sendDone s) = lastSentLen s"
  "statusPingSent (sendDone s) = statusPingSent s"
  "flushTimer (sendDone s) = flushTimer s"
  "startTimer (sendDone s) = startTimer s"
  "startPending (sendDone s) = startPending s"
  by (simp_all add: sendDone_def resEnd_def)

lemma finallyInner_frame [simp]:
  "clientClosed (finallyInner s) = clientClosed s"
  "ended (finallyInner s) = True"
  "running (finallyInner s) = running s"
  "src (finallyInner s) = src s"
  "cancels (finallyInner s) = cancels s"
  "closeListener (finallyInner s) = False"
  "errorListener (finallyInner s) = errorListener s"
  "startedStreaming (finallyInner s) = startedStreaming s"
  "buffer (finallyInner s) = buffer s"
  "lastSentLen (finallyInner s) = lastSentLen s"
  "statusPingSent (finallyInner s) = statusPingSent s"
  by (simp_all add: finallyInner_def Let_def)

lemma finallyOuter_frame [simp]:
  "clientClosed (finallyOuter s) = clientClosed s"
  "ended (finallyOuter s) = True"
  "running (finallyOuter s) = False"
  "src (finallyOuter s) = src s"
  "cancels (finallyOuter s) = cancels s"
  "closeListener (finallyOuter s) = False"
  "errorListener (finallyOuter s) = errorListener s"
  by (simp_all add: finallyOuter_def Let_def)

lemma leaveLoop_frame [simp]:
  "clientClosed (leaveLoop s) = clientClosed s"
  "ended (leaveLoop s) = True"
  "running (leaveLoop s) = False"
  "src (leaveLoop s) = src s"
  "cancels (leaveLoop s) = cancels s"
  "closeListener (leaveLoop s) = False"
  "errorListener (leaveLoop s) = errorListener s"
  by (simp_all add: leaveLoop_def)

section \<open>The session: what is written\<close>

lemma safeWrite_blocked: "blocked s \<Longrightarrow> safeWrite d s = s"
  by (simp add: safeWrite_def blocked_def)

lemma sendChunk_blocked: "blocked s \<Longrightarrow> sendChunk c s = s"
  by (simp add: sendChunk_def blocked_def)

lemma flushIfNeeded_blocked: "blocked s \<Longrightarrow> flushIfNeeded f s = s"
  by (simp add: flushIfNeeded_def blocked_def)

lemma sendDone_blocked: "blocked s \<Longrightarrow> sendDone s = s"
  by (auto simp add: sendDone_def blocked_def)

lemma blocked_frame [simp]:
  "blocked (safeWrite d s) = blocked s"
  "blocked (ensureHeaders s) = blocked s"
  "blocked (sendChunk c s) = blocked s"
  "blocked (clearTimers s) = blocked s"
  "blocked (flushIfNeeded f s) = blocked s"
  "blocked (onContent c s) = blocked s"
  "blocked (docsLines ls s) = blocked s"
  "blocked (openaiLines ls s) = blocked s"
  by (simp_all add: blocked_def)

lemma written_safeWrite:
  "written (safeWrite d s) = (if blocked s then written s else written s @ [d])"
  by (simp add: safeWrite_def blocked_def)

lemma written_sendChunk:
  "written (sendChunk c s) =
     (if c = [] \<or> blocked s then written s
      else written s @ (if statusPingSent s then [] else [Ping]) @ [Data (src s) c])"
  by (simp add: sendChunk_def Let_def blocked_def safeWrite_def ensureHeaders_def)

lemma written_sendDone:
  "written (sendDone s) = (if blocked s then written s else written s @ [DoneMarker])"
  by (simp add: sendDone_def resEnd_def safeWrite_def blocked_def)

lemma writableEnded_sendDone:
  "writableEnded (sendDone s) = (writableEnded s \<or> \<not> blocked s)"
  by (auto simp add: sendDone_def resEnd_def blocked_def)

lemma dones_sendChunk [simp]: "dones (sendChunk c s) = dones s"
  by (simp add: dones_def written_sendChunk)

lemma dones_flushIfNeeded [simp]: "dones (flushIfNeeded f s) = dones s"
  by (simp add: flushIfNeeded_def Let_def dones_def written_sendChunk)

lemma dones_onContent [simp]: "dones (onContent c s) = dones s"
proof -
  have "\<And>t. dones (flushIfNeeded False t) = dones t" by simp
  then show ?thesis by (simp add: onContent_def Let_def dones_def)
qed

lemma dones_docsLines [simp]: "dones (docsLines ls s) = dones s"
  by (induction ls arbitrary: s) (simp_all split: line.splits)

lemma dones_openaiLines [simp]: "dones (openaiLines ls s) = dones s"
  by (induction ls arbitrary: s) (simp_all split: line.splits add: dones_def written_safeWrite)

lemma dones_misc [simp]:
  "dones (clearTimers s) = dones s"
  "dones (ensureHeaders s) = dones s"
  "dones (onClientClose s) = dones s"
  by (simp_all add: dones_def onClientClose_def)

lemma dones_sendDone: "dones (sendDone s) = (if blocked s then dones s else Suc (dones s))"
  by (simp add: dones_def written_sendDone)

lemma written_finallyInner: "written (finallyInner s) = written (sendDone (clearTimers s))"
  by (simp add: finallyInner_def Let_def)

lemma dones_finallyInner:
  "dones (finallyInner s) = (if blocked s then dones s else Suc (dones s))"
  by (simp add: dones_def written_finallyInner written_sendDone)

lemma dones_finallyOuter:
  "dones (finallyOuter s) = (if blocked s then dones s else Suc (dones s))"
proof -
  let ?a = "flushIfNeeded True (clearTimers s)"
  let ?b = "if \<not> startedStreaming ?a \<and> src ?a = Docs \<and> \<not> clientClosed ?a
            then sendChunk fallbackSentence (ensureHeaders ?a) else ?a"
  have w: "written (finallyOuter s) = written (sendDone ?b)"
    by (simp add: finallyOuter_def Let_def)
  have b: "blocked ?b = blocked s" by simp
  have d: "dones ?b = dones s" by simp
  have "dones (finallyOuter s) = dones (sendDone ?b)"
    using w by (simp add: dones_def)
  then show ?thesis using b d by (simp add: dones_sendDone)
qed

lemma blocked_finallyInner [simp]: "blocked (finallyInner s)"
  by (simp add: blocked_def)

lemma dones_leaveLoop:
  "dones (leaveLoop s) = (if blocked s then dones s else Suc (dones s))"
  by (simp add: leaveLoop_def dones_finallyOuter dones_finallyInner)

lemma written_finallyOuter_blocked: "blocked s \<Longrightarrow> written (finallyOuter s) = written s"
proof -
  assume b: "blocked s"
  then have c: "blocked (clearTimers s)" by simp
  have "flushIfNeeded True (clearTimers s) = clearTimers s"
    using c by (rule flushIfNeeded_blocked)
  then show ?thesis
    using c by (simp add: finallyOuter_def Let_def sendChunk_blocked sendDone_blocked)
qed

lemma written_leaveLoop_blocked: "blocked s \<Longrightarrow> written (leaveLoop s) = written s"
  by (simp add: leaveLoop_def written_finallyOuter_blocked written_finallyInner sendDone_blocked)

lemma docsLines_closed: "clientClosed s \<Longrightarrow> docsLines ls s = s"
  by (cases ls) simp_all

lemma openaiLines_closed: "clientClosed s \<Longrightarrow> openaiLines ls s = s"
  by (cases ls) simp_all

lemma step_closed:
  "clientClosed s \<Longrightarrow> clientClosed (step e s) \<and> written (step e s) = written s"
proof -
  assume c: "clientClosed s"
  then have b: "blocked s" by (simp add: blocked_def)
  show ?thesis
  proof (cases e)
    case (Read ls)
    with c b show ?thesis
      by (simp add: docsLines_closed openaiLines_closed written_leaveLoop_blocked)
  next
    case ReadDone
    with c b show ?thesis by (simp add: written_leaveLoop_blocked)
  next
    case ReadError
    with c b show ?thesis by (simp add: written_leaveLoop_blocked)
  next
    case Tick
    with c b show ?thesis by (simp add: flushIfNeeded_blocked)
  next
    case StartTimeout
    with c show ?thesis by simp
  next
    case Close
    with c show ?thesis by (simp add: onClientClose_def)
  next
    case ResError
    with c show ?thesis by (simp add: onClientClose_def)
  qed
qed

section \<open>The terminal marker\<close>

lemma run_snoc:
  "streamModelResponse r source (evs @ [e]) = step e (streamModelResponse r source evs)"
  by (simp add: streamModelResponse_def)

lemma run_append:
  "streamModelResponse r source (evs @ evs') =
     foldl (\<lambda>s e. step e s) (streamModelResponse r source evs) evs'"
  by (simp add: streamModelResponse_def)

lemma dones_pending: "dones (s\<lparr>startPending := b\<rparr>) = dones s"
  by (simp add: dones_def)

lemma done_inv_start: "done_inv (startSession r source)"
  by (cases r)
     (simp_all add: done_inv_def startSession_def fresh_def Let_def resEnd_def dones_def
        written_safeWrite blocked_def ensureHeaders_def)

lemma done_inv_leaveLoop:
  assumes "done_inv s" "running s"
  shows "done_inv (leaveLoop s)"
proof -
  from assms have a: "dones s = 0" "\<not> writableEnded s" "ended s \<longrightarrow> clientClosed s" "errorListener s"
    by (simp_all add: done_inv_def)
  have "\<not> clientClosed s \<Longrightarrow> \<not> blocked s" using a by (auto simp: blocked_def)
  then show ?thesis
    using a by (auto simp add: done_inv_def dones_leaveLoop)
qed

lemma done_inv_step: "done_inv s \<Longrightarrow> done_inv (step e s)"
proof (cases "running s")
  case True
  assume i: "done_inv s"
  from i True have a: "dones s = 0" "\<not> writableEnded s" "ended s \<longrightarrow> clientClosed s" "errorListener s"
    by (simp_all add: done_inv_def)
  show ?thesis
  proof (cases e)
    case (Read ls)
    let ?t = "if src s = Openai then openaiLines ls s else docsLines ls s"
    have t: "done_inv ?t" "running ?t" using a True by (simp_all add: done_inv_def)
    have "step e s = (if clientClosed ?t then leaveLoop ?t else ?t)"
      using Read True by (simp add: Let_def)
    then show ?thesis using t done_inv_leaveLoop [of ?t] by presburger
  next
    case ReadDone
    then show ?thesis using i True done_inv_leaveLoop [of s] by simp
  next
    case ReadError
    then show ?thesis using i True done_inv_leaveLoop [of s] by simp
  next
    case Tick
    then show ?thesis using a True by (simp add: done_inv_def)
  next
    case StartTimeout
    have "dones (flushIfNeeded True (s\<lparr>startPending := False\<rparr>)) = dones s"
      by (simp add: dones_pending)
    then show ?thesis using StartTimeout a True
      by (auto simp add: done_inv_def Let_def dones_pending)
  next
    case Close
    then show ?thesis using a True by (simp add: done_inv_def onClientClose_def dones_def)
  next
    case ResError
    then show ?thesis using a True by (simp add: done_inv_def onClientClose_def dones_def)
  qed
next
  case False
  assume i: "done_inv s"
  from i False have a: "ended s \<or> writableEnded s" "dones s \<le> 1"
    "errorListener s \<and> \<not> clientClosed s \<longrightarrow> dones s = 1"
    by (simp_all add: done_inv_def)
  have b: "blocked s" using a by (auto simp: blocked_def)
  show ?thesis
  proof (cases e)
    case (Read ls)
    then show ?thesis using i False by simp
  next
    case ReadDone
    then show ?thesis using i False by simp
  next
    case ReadError
    then show ?thesis using i False by simp
  next
    case Tick
    then show ?thesis using i b by (simp add: flushIfNeeded_blocked)
  next
    case StartTimeout
    have "blocked (s\<lparr>startPending := False\<rparr>)" using b by (simp add: blocked_def)
    then have "flushIfNeeded True (s\<lparr>startPending := False\<rparr>) = s\<lparr>startPending := False\<rparr>"
      by (rule flushIfNeeded_blocked)
    then show ?thesis using StartTimeout i False by (simp add: Let_def done_inv_def dones_def)
  next
    case Close
    then show ?thesis using a False by (simp add: done_inv_def onClientClose_def dones_def)
  next
    case ResError
    then show ?thesis using a False by (simp add: done_inv_def onClientClose_def dones_def)
  qed
qed

lemma done_inv_run: "done_inv (streamModelResponse r source evs)"
proof (induction evs rule: rev_induct)
  case Nil
  then show ?case by (simp add: streamModelResponse_def done_inv_start)
next
  case (snoc e evs)
  then show ?case by (simp add: run_snoc done_inv_step)
qed

lemma closed_stays:
  "clientClosed s \<Longrightarrow>
   clientClosed (foldl (\<lambda>s e. step e s) s evs) \<and> written (foldl (\<lambda>s e. step e s) s evs) = written s"
proof (induction evs arbitrary: s)
  case Nil
  then show ?case by simp
next
  case (Cons e evs)
  from Cons.prems have "clientClosed (step e s)" "written (step e s) = written s"
    using step_closed [of s e] by simp_all
  with Cons.IH [of "step e s"] show ?case by simp
qed

text \<open>
  C1. In every session of \<^verbatim>\<open>streamModelResponse\<close>, whatever the upstream answer, the
  source and the events, the marker \<^verbatim>\<open>data: [DONE]\<close> is written at most once; a session
  on a streamed answer that has left its read loop with the client still connected has
  written it exactly once; and once \<open>clientClosed\<close> is set, nothing more is written to the
  response, whatever happens next.
\<close>

theorem done_once:
  "dones (streamModelResponse r source evs) \<le> 1
   \<and> (\<not> running (streamModelResponse Streaming source evs)
        \<and> \<not> clientClosed (streamModelResponse Streaming source evs)
      \<longrightarrow> dones (streamModelResponse Streaming source evs) = 1)
   \<and> (clientClosed (streamModelResponse r source evs)
      \<longrightarrow> written (streamModelResponse r source (evs @ evs'))
            = written (streamModelResponse r source evs))"
proof (intro conjI impI)
  show "dones (streamModelResponse r source evs) \<le> 1"
    using done_inv_run [of r source evs] by (auto simp: done_inv_def split: if_splits)
next
  assume a: "\<not> running (streamModelResponse Streaming source evs)
        \<and> \<not> clientClosed (streamModelResponse Streaming source evs)"
  have "errorListener (startSession Streaming source)"
    by (simp add: startSession_def Let_def fresh_def ensureHeaders_def safeWrite_def)
  have e: "\<And>s e. errorListener s \<Longrightarrow> errorListener (step e s)"
  proof -
    fix s e show "errorListener s \<Longrightarrow> errorListener (step e s)"
      by (cases e) (simp_all add: Let_def onClientClose_def)
  qed
  have "errorListener (streamModelResponse Streaming source evs)"
  proof (induction evs rule: rev_induct)
    case Nil
    then show ?case
      by (simp add: streamModelResponse_def startSession_def Let_def fresh_def ensureHeaders_def safeWrite_def)
  next
    case (snoc x xs)
    then show ?case by (simp add: run_snoc e)
  qed
  with a done_inv_run [of Streaming source evs]
  show "dones (streamModelResponse Streaming source evs) = 1"
    by (simp add: done_inv_def)
next
  assume "clientClosed (streamModelResponse r source evs)"
  then show "written (streamModelResponse r source (evs @ evs'))
            = written (streamModelResponse r source evs)"
    by (simp add: run_append closed_stays)
qed

theorem done_once_witness:
  "\<not> running (streamModelResponse Streaming Docs [Read [LContent (js ''Paris'')], ReadDone])
   \<and> \<not> clientClosed (streamModelResponse Streaming Docs [Read [LContent (js ''Paris'')], ReadDone])
   \<and> dones (streamModelResponse Streaming Docs [Read [LContent (js ''Paris'')], ReadDone]) = 1
   \<and> clientClosed (streamModelResponse Streaming Docs [Read [LContent (js ''Paris'')], Close])
   \<and> written (streamModelResponse Streaming Docs
        ([Read [LContent (js ''Paris'')], Close] @ [Tick, Read [LContent (js ''Rome'')], ReadDone]))
      = written (streamModelResponse Streaming Docs [Read [LContent (js ''Paris'')], Close])"
proof -
  have a: "\<not> running (streamModelResponse Streaming Docs [Read [LContent (js ''Paris'')], ReadDone])
     \<and> \<not> clientClosed (streamModelResponse Streaming Docs [Read [LContent (js ''Paris'')], ReadDone])"
    by code_simp
  have b: "clientClosed (streamModelResponse Streaming Docs [Read [LContent (js ''Paris'')], Close])"
    by code_simp
  from a b
    done_once [of Streaming Docs "[Read [LContent (js ''Paris'')], ReadDone]"]
    done_once [of Streaming Docs "[Read [LContent (js ''Paris'')], Close]"
                  "[Tick, Read [LContent (js ''Rome'')], ReadDone]"]
  show ?thesis by blast
qed

section \<open>Cancelling the upstream reader\<close>

lemma cancels_step:
  "cancels (step e s) =
     (if (e = Close \<and> closeListener s) \<or> (e = ResError \<and> errorListener s)
      then Suc (cancels s) else cancels s)"
  by (cases e) (simp_all add: Let_def onClientClose_def)

lemma running_step: "running (step e s) \<Longrightarrow> running s"
  by (cases e) (auto simp add: Let_def onClientClose_def split: if_splits)

lemma listeners_step:
  "running (step e s) \<Longrightarrow> closeListener s \<and> errorListener s \<Longrightarrow>
   closeListener (step e s) \<and> errorListener (step e s)"
  by (cases e) (auto simp add: Let_def onClientClose_def split: if_splits)

lemma listeners_start:
  "closeListener (startSession Streaming source) \<and> errorListener (startSession Streaming source)
   \<and> cancels (startSession Streaming source) = 0"
  by (simp add: startSession_def Let_def fresh_def)

lemma cancels_run:
  "running (streamModelResponse Streaming source evs) \<Longrightarrow>
     cancels (streamModelResponse Streaming source evs) = length (filter is_disconnect evs)
     \<and> closeListener (streamModelResponse Streaming source evs)
     \<and> errorListener (streamModelResponse Streaming source evs)"
proof (induction evs rule: rev_induct)
  case Nil
  then show ?case using listeners_start [of source] by (simp add: streamModelResponse_def)
next
  case (snoc e evs)
  let ?s = "streamModelResponse Streaming source evs"
  from snoc.prems have r: "running (step e ?s)" by (simp add: run_snoc)
  then have "running ?s" by (rule running_step)
  with snoc.IH have ih: "cancels ?s = length (filter is_disconnect evs)"
    "closeListener ?s \<and> errorListener ?s" by simp_all
  have c: "cancels (step e ?s) = (if is_disconnect e then Suc (cancels ?s) else cancels ?s)"
    using ih(2) by (cases e) (simp_all add: cancels_step del: step.simps)
  from listeners_step [OF r ih(2)] ih(1) c show ?case
    by (simp add: run_snoc del: step.simps)
qed

text \<open>
  C7, as the source has it. \<^verbatim>\<open>onClientClose\<close> has no guard: each \<^verbatim>\<open>close\<close> or
  \<^verbatim>\<open>error\<close> event that arrives while the read loop is still waiting calls
  \<^verbatim>\<open>reader.cancel()\<close> once more. So far as the session is still in its loop, the number
  of cancellations is the number of these events: one for a single disconnect, two for
  a disconnect that is signalled twice.
\<close>

theorem cancel_each_event:
  "running (streamModelResponse Streaming source evs) \<Longrightarrow>
     cancels (streamModelResponse Streaming source evs) = length (filter is_disconnect evs)"
  using cancels_run by blast

theorem cancel_each_event_witness:
  "running (streamModelResponse Streaming Docs [Read [LContent (js ''Paris'')], Close])
   \<and> cancels (streamModelResponse Streaming Docs [Read [LContent (js ''Paris'')], Close]) = 1"
proof -
  have r: "running (streamModelResponse Streaming Docs [Read [LContent (js ''Paris'')], Close])"
    by code_simp
  from cancel_each_event [OF r] r show ?thesis by simp
qed

text \<open>
  The claim as it is stated fails: an \<^verbatim>\<open>error\<close> event followed by the \<^verbatim>\<open>close\<close> event
  of the same disconnect cancels the reader twice.
\<close>

theorem cancel_twice:
  "running (streamModelResponse Streaming Docs [Read [LContent (js ''Paris'')], ResError, Close])
   \<and> cancels (streamModelResponse Streaming Docs [Read [LContent (js ''Paris'')], ResError, Close]) = 2"
  by code_simp


section \<open>The sent length\<close>

lemma sent_inv_frame [simp]:
  "sent_inv (clearTimers s) = sent_inv s"
  "sent_inv (sendChunk c s) = sent_inv s"
  "sent_inv (ensureHeaders s) = sent_inv s"
  "sent_inv (sendDone s) = sent_inv s"
  "sent_inv (finallyInner s) = sent_inv s"
  "sent_inv (openaiLines ls s) = sent_inv s"
  "sent_inv (startPeriodicFlush s) = sent_inv s"
  by (simp_all add: sent_inv_def)

lemma flush_sent:
  "sent_inv s \<Longrightarrow>
   sent_inv (flushIfNeeded f s) \<and> lastSentLen s \<le> lastSentLen (flushIfNeeded f s)"
  by (simp add: flushIfNeeded_def Let_def sent_inv_def)

lemma onContent_sent:
  assumes "sent_inv s"
  shows "sent_inv (onContent c s) \<and> lastSentLen s \<le> lastSentLen (onContent c s)"
proof (cases "c = []")
  case True
  with assms show ?thesis by (simp add: onContent_def)
next
  case False
  let ?t = "if \<not> startedStreaming s then s\<lparr>buffer := stripLeadingPhrases (buffer s @ c)\<rparr>
            else s\<lparr>buffer := buffer s @ c\<rparr>"
  have t: "sent_inv ?t" "lastSentLen ?t = lastSentLen s"
    using assms by (auto simp add: sent_inv_def)
  have "onContent c s = flushIfNeeded False ?t"
    using False by (simp add: onContent_def Let_def)
  with flush_sent [OF t(1), of False] t(2) show ?thesis by simp
qed

lemma docsLines_sent:
  "sent_inv s \<Longrightarrow> sent_inv (docsLines ls s) \<and> lastSentLen s \<le> lastSentLen (docsLines ls s)"
proof (induction ls arbitrary: s)
  case Nil
  then show ?case by simp
next
  case (Cons l ls)
  show ?case
  proof (cases l)
    case LDone
    with Cons.prems show ?thesis by simp
  next
    case (LContent c)
    from onContent_sent [OF Cons.prems, of c]
    have a: "sent_inv (onContent c s)" "lastSentLen s \<le> lastSentLen (onContent c s)" by simp_all
    from Cons.IH [OF a(1)] a(2) LContent Cons.prems show ?thesis by auto
  next
    case LSkip
    with Cons.IH [OF Cons.prems] Cons.prems show ?thesis by auto
  qed
qed

lemma finallyOuter_sent_frame:
  "buffer (finallyOuter s) = buffer (flushIfNeeded True (clearTimers s))"
  "lastSentLen (finallyOuter s) = lastSentLen (flushIfNeeded True (clearTimers s))"
  "startedStreaming (finallyOuter s) = startedStreaming (flushIfNeeded True (clearTimers s))"
  by (simp_all add: finallyOuter_def Let_def)

lemma finallyOuter_sent:
  assumes "sent_inv s"
  shows "sent_inv (finallyOuter s) \<and> lastSentLen s \<le> lastSentLen (finallyOuter s)"
proof -
  have "sent_inv (clearTimers s)" using assms by simp
  from flush_sent [OF this, of True] show ?thesis
    by (simp add: sent_inv_def finallyOuter_sent_frame)
qed

lemma leaveLoop_sent:
  assumes "sent_inv s"
  shows "sent_inv (leaveLoop s) \<and> lastSentLen s \<le> lastSentLen (leaveLoop s)"
proof (cases "src s = Openai")
  case True
  have "sent_inv (finallyInner s)" using assms by simp
  from finallyOuter_sent [OF this] True show ?thesis by (simp add: leaveLoop_def)
next
  case False
  with finallyOuter_sent [OF assms] show ?thesis by (simp add: leaveLoop_def)
qed

lemma step_sent:
  assumes "sent_inv s"
  shows "sent_inv (step e s) \<and> lastSentLen s \<le> lastSentLen (step e s)"
proof (cases e)
  case (Read ls)
  let ?t = "if src s = Openai then openaiLines ls s else docsLines ls s"
  have t: "sent_inv ?t \<and> lastSentLen s \<le> lastSentLen ?t"
    using assms docsLines_sent [OF assms, of ls] by simp
  then have l: "sent_inv (leaveLoop ?t) \<and> lastSentLen s \<le> lastSentLen (leaveLoop ?t)"
    using leaveLoop_sent [of ?t] by linarith
  have eq: "step e s = (if \<not> running s then s else if clientClosed ?t then leaveLoop ?t else ?t)"
    using Read by (simp add: Let_def)
  show ?thesis
  proof (cases "running s")
    case False
    with eq assms show ?thesis by simp
  next
    case True
    show ?thesis
    proof (cases "clientClosed ?t")
      case True
      with eq \<open>running s\<close> have "step e s = leaveLoop ?t" by simp
      with l show ?thesis by simp
    next
      case False
      with eq \<open>running s\<close> have "step e s = ?t" by simp
      with t show ?thesis by simp
    qed
  qed
next
  case ReadDone
  with leaveLoop_sent [OF assms] assms show ?thesis by simp
next
  case ReadError
  with leaveLoop_sent [OF assms] assms show ?thesis by simp
next
  case Tick
  with flush_sent [OF assms, of True] assms show ?thesis by simp
next
  case StartTimeout
  have "sent_inv (s\<lparr>startPending := False\<rparr>)" using assms by (simp add: sent_inv_def)
  from flush_sent [OF this, of True] StartTimeout assms show ?thesis
    by (simp add: Let_def sent_inv_def)
next
  case Close
  with assms show ?thesis by (simp add: onClientClose_def sent_inv_def)
next
  case ResError
  with assms show ?thesis by (simp add: onClientClose_def sent_inv_def)
qed

lemma sent_inv_start: "sent_inv (startSession r source)"
  by (cases r) (simp_all add: startSession_def Let_def fresh_def sent_inv_def resEnd_def)

lemma sent_inv_run: "sent_inv (streamModelResponse r source evs)"
proof (induction evs rule: rev_induct)
  case Nil
  then show ?case by (simp add: streamModelResponse_def sent_inv_start)
next
  case (snoc e evs)
  then show ?case by (simp add: run_snoc step_sent)
qed

lemma sent_mono:
  "sent_inv s \<Longrightarrow> lastSentLen s \<le> lastSentLen (foldl (\<lambda>s e. step e s) s evs)"
proof (induction evs arbitrary: s)
  case Nil
  then show ?case by simp
next
  case (Cons e evs)
  from step_sent [OF Cons.prems, of e]
  have a: "sent_inv (step e s)" "lastSentLen s \<le> lastSentLen (step e s)" by simp_all
  from Cons.IH [OF a(1)] a(2) show ?case by simp
qed

text \<open>
  C6. In every state of a session the sent length is at most the length of the buffer,
  and no later state of the session has a smaller sent length.
\<close>

theorem sent_length:
  "lastSentLen (streamModelResponse r source evs) \<le> length (buffer (streamModelResponse r source evs))
   \<and> lastSentLen (streamModelResponse r source evs)
       \<le> lastSentLen (streamModelResponse r source (evs @ evs'))"
  using sent_inv_run [of r source evs] sent_mono [of "streamModelResponse r source evs" evs']
  by (simp add: run_append sent_inv_def)

theorem sent_length_witness:
  "lastSentLen (streamModelResponse Streaming Docs [Read [LContent (js ''Paris'')], StartTimeout]) = 5
   \<and> length (buffer (streamModelResponse Streaming Docs [Read [LContent (js ''Paris'')], StartTimeout])) = 5
   \<and> lastSentLen (streamModelResponse Streaming Docs
        ([Read [LContent (js ''Paris'')], StartTimeout] @ [Read [LContent (js '' is the capital'')]])) = 20"
proof -
  have "lastSentLen (streamModelResponse Streaming Docs [Read [LContent (js ''Paris'')], StartTimeout]) = 5
   \<and> length (buffer (streamModelResponse Streaming Docs [Read [LContent (js ''Paris'')], StartTimeout])) = 5
   \<and> lastSentLen (streamModelResponse Streaming Docs
        ([Read [LContent (js ''Paris'')], StartTimeout] @ [Read [LContent (js '' is the capital'')]])) = 20"
    by code_simp
  with sent_length [of Streaming Docs "[Read [LContent (js ''Paris'')], StartTimeout]"
        "[Read [LContent (js '' is the capital'')]]"]
  show ?thesis by simp
qed

section \<open>The terminal fallback\<close>

lemma flush_started: "startedStreaming s \<Longrightarrow> startedStreaming (flushIfNeeded f s)"
  by (simp add: flushIfNeeded_def Let_def)

lemma flush_starts:
  "\<not> blocked s \<Longrightarrow> \<not> startedStreaming s \<Longrightarrow>
   STREAM_START_THRESHOLD \<le> length (js_trim (stripLeadingPhrases (buffer s)))
     \<or> (f \<and> 0 < length (js_trim (stripLeadingPhrases (buffer s)))) \<Longrightarrow>
   startedStreaming (flushIfNeeded f s)"
  by (simp add: flushIfNeeded_def Let_def blocked_def)

lemma flush_waits:
  "\<not> startedStreaming s \<Longrightarrow>
   \<not> (STREAM_START_THRESHOLD \<le> length (js_trim (stripLeadingPhrases (buffer s)))
     \<or> (f \<and> 0 < length (js_trim (stripLeadingPhrases (buffer s))))) \<Longrightarrow>
   flushIfNeeded f s = s"
  by (auto simp add: flushIfNeeded_def Let_def)

lemma flush_unstarted:
  assumes "\<not> startedStreaming (flushIfNeeded f s)"
  shows "flushIfNeeded f s = s"
proof (cases "blocked s")
  case True
  then show ?thesis by (rule flushIfNeeded_blocked)
next
  case False
  from assms flush_started [of s f] have n: "\<not> startedStreaming s" by blast
  from assms flush_starts [OF False n, of f]
  have "\<not> (STREAM_START_THRESHOLD \<le> length (js_trim (stripLeadingPhrases (buffer s)))
     \<or> (f \<and> 0 < length (js_trim (stripLeadingPhrases (buffer s)))))" by blast
  with n show ?thesis by (rule flush_waits)
qed

lemma onContent_unstarted:
  assumes "\<not> startedStreaming (onContent c s)"
  shows "written (onContent c s) = written s \<and> statusPingSent (onContent c s) = statusPingSent s
         \<and> \<not> startedStreaming s"
proof (cases "c = []")
  case True
  with assms show ?thesis by (simp add: onContent_def)
next
  case False
  let ?t = "if \<not> startedStreaming s then s\<lparr>buffer := stripLeadingPhrases (buffer s @ c)\<rparr>
            else s\<lparr>buffer := buffer s @ c\<rparr>"
  have eq: "onContent c s = flushIfNeeded False ?t"
    using False by (simp add: onContent_def Let_def)
  from assms eq have "\<not> startedStreaming (flushIfNeeded False ?t)" by simp
  then have "flushIfNeeded False ?t = ?t" by (rule flush_unstarted)
  with eq have "onContent c s = ?t" by simp
  moreover from this assms have "\<not> startedStreaming ?t" by simp
  ultimately show ?thesis by (simp split: if_splits)
qed

lemma docsLines_unstarted:
  "\<not> startedStreaming (docsLines ls s) \<Longrightarrow>
   written (docsLines ls s) = written s \<and> statusPingSent (docsLines ls s) = statusPingSent s
   \<and> \<not> startedStreaming s"
proof (induction ls arbitrary: s)
  case Nil
  then show ?case by simp
next
  case (Cons l ls)
  show ?case
  proof (cases "clientClosed s")
    case True
    with Cons.prems show ?thesis by simp
  next
    case False
    show ?thesis
    proof (cases l)
      case LDone
      with Cons.prems False show ?thesis by simp
    next
      case (LContent c)
      with Cons.prems False have p: "\<not> startedStreaming (docsLines ls (onContent c s))" by simp
      from Cons.IH [OF p] have a: "written (docsLines ls (onContent c s)) = written (onContent c s)"
        "statusPingSent (docsLines ls (onContent c s)) = statusPingSent (onContent c s)"
        "\<not> startedStreaming (onContent c s)" by simp_all
      from onContent_unstarted [OF a(3)] a LContent False show ?thesis by simp
    next
      case LSkip
      with Cons.prems False have p: "\<not> startedStreaming (docsLines ls s)" by simp
      from Cons.IH [OF p] LSkip False show ?thesis by simp
    qed
  qed
qed

lemma fallbackSentence_nonempty: "fallbackSentence \<noteq> []"
  by (simp add: fallbackSentence_def js_def)

lemma finallyOuter_fallback:
  assumes "src s = Docs" "\<not> blocked s" "\<not> startedStreaming (finallyOuter s)"
    "written s = []" "\<not> statusPingSent s"
  shows "written (finallyOuter s) = [Ping, Data Docs fallbackSentence, DoneMarker]"
proof -
  let ?a = "flushIfNeeded True (clearTimers s)"
  from assms(3) have "\<not> startedStreaming ?a" by (simp add: finallyOuter_sent_frame)
  then have a: "?a = clearTimers s" by (rule flush_unstarted)
  have c: "\<not> clientClosed s" using assms(2) by (simp add: blocked_def)
  have n: "\<not> startedStreaming (clearTimers s)" using \<open>\<not> startedStreaming ?a\<close> a by simp
  have "written (finallyOuter s)
          = written (sendDone (sendChunk fallbackSentence (ensureHeaders (clearTimers s))))"
    using a c n assms(1) by (simp add: finallyOuter_def Let_def)
  then show ?thesis
    using assms by (simp add: written_sendDone written_sendChunk fallbackSentence_nonempty)
qed

lemma fallback_inv_leaveLoop:
  assumes "fallback_inv s" "running s"
  shows "fallback_inv (leaveLoop s)"
proof -
  from assms have a: "src s = Docs" "\<not> writableEnded s" "ended s \<longrightarrow> clientClosed s"
    "\<not> startedStreaming s \<longrightarrow> written s = [] \<and> \<not> statusPingSent s"
    by (simp_all add: fallback_inv_def)
  have l: "leaveLoop s = finallyOuter s" using a(1) by (simp add: leaveLoop_def)
  have "written (finallyOuter s) = [Ping, Data Docs fallbackSentence, DoneMarker]"
    if h: "\<not> startedStreaming (finallyOuter s)" "\<not> clientClosed s"
  proof -
    from h(2) a have nb: "\<not> blocked s" by (auto simp: blocked_def)
    have "startedStreaming s \<Longrightarrow> startedStreaming (finallyOuter s)"
      using flush_started [of "clearTimers s" True]
      by (simp add: finallyOuter_sent_frame)
    with h(1) have "\<not> startedStreaming s" by blast
    with a(4) have "written s = []" "\<not> statusPingSent s" by simp_all
    with finallyOuter_fallback [OF a(1) nb h(1)] show ?thesis by simp
  qed
  then show ?thesis using a l by (simp add: fallback_inv_def)
qed

lemma fallback_inv_flush:
  assumes "fallback_inv s" "running s"
  shows "fallback_inv (flushIfNeeded f s)"
proof (cases "startedStreaming (flushIfNeeded f s)")
  case True
  with assms show ?thesis by (simp add: fallback_inv_def)
next
  case False
  then have "flushIfNeeded f s = s" by (rule flush_unstarted)
  with assms show ?thesis by simp
qed

lemma fallback_inv_step: "fallback_inv s \<Longrightarrow> fallback_inv (step e s)"
proof (cases "running s")
  case True
  assume i: "fallback_inv s"
  from i True have a: "src s = Docs" "\<not> writableEnded s" "ended s \<longrightarrow> clientClosed s"
    "\<not> startedStreaming s \<longrightarrow> written s = [] \<and> \<not> statusPingSent s"
    by (simp_all add: fallback_inv_def)
  show ?thesis
  proof (cases e)
    case (Read ls)
    let ?t = "docsLines ls s"
    have "\<not> startedStreaming ?t \<longrightarrow> written ?t = [] \<and> \<not> statusPingSent ?t"
      using docsLines_unstarted [of ls s] a(4) by auto
    then have t: "fallback_inv ?t" "running ?t" using a True by (simp_all add: fallback_inv_def)
    have eq: "step e s = (if clientClosed ?t then leaveLoop ?t else ?t)"
      using Read True a(1) by (simp add: Let_def)
    show ?thesis
    proof (cases "clientClosed ?t")
      case True
      with eq have "step e s = leaveLoop ?t" by simp
      with fallback_inv_leaveLoop [OF t] show ?thesis by simp
    next
      case False
      with eq have "step e s = ?t" by simp
      with t show ?thesis by simp
    qed
  next
    case ReadDone
    then show ?thesis using i True fallback_inv_leaveLoop [of s] by simp
  next
    case ReadError
    then show ?thesis using i True fallback_inv_leaveLoop [of s] by simp
  next
    case Tick
    then show ?thesis using i True by (simp add: fallback_inv_flush)
  next
    case StartTimeout
    let ?p = "s\<lparr>startPending := False\<rparr>"
    have p: "fallback_inv ?p" "running ?p" using i True by (simp_all add: fallback_inv_def)
    then have "fallback_inv (flushIfNeeded True ?p)" by (rule fallback_inv_flush)
    with p StartTimeout i show ?thesis by (simp add: Let_def)
  next
    case Close
    then show ?thesis using a True by (simp add: fallback_inv_def onClientClose_def)
  next
    case ResError
    then show ?thesis using a True by (simp add: fallback_inv_def onClientClose_def)
  qed
next
  case False
  assume i: "fallback_inv s"
  from i False have a: "src s = Docs" "ended s"
    "\<not> startedStreaming s \<and> \<not> clientClosed s
       \<longrightarrow> written s = [Ping, Data Docs fallbackSentence, DoneMarker]"
    by (simp_all add: fallback_inv_def)
  have b: "blocked s" using a by (auto simp: blocked_def)
  show ?thesis
  proof (cases e)
    case (Read ls)
    then show ?thesis using i False by simp
  next
    case ReadDone
    then show ?thesis using i False by simp
  next
    case ReadError
    then show ?thesis using i False by simp
  next
    case Tick
    then show ?thesis using i b by (simp add: flushIfNeeded_blocked)
  next
    case StartTimeout
    have "blocked (s\<lparr>startPending := False\<rparr>)" using b by (simp add: blocked_def)
    then have "flushIfNeeded True (s\<lparr>startPending := False\<rparr>) = s\<lparr>startPending := False\<rparr>"
      by (rule flushIfNeeded_blocked)
    then show ?thesis using StartTimeout i False by (simp add: Let_def fallback_inv_def)
  next
    case Close
    then show ?thesis using a False by (simp add: fallback_inv_def onClientClose_def)
  next
    case ResError
    then show ?thesis using a False by (simp add: fallback_inv_def onClientClose_def)
  qed
qed

lemma fallback_inv_run: "fallback_inv (streamModelResponse Streaming Docs evs)"
proof (induction evs rule: rev_induct)
  case Nil
  then show ?case
    by (simp add: streamModelResponse_def startSession_def fresh_def fallback_inv_def)
next
  case (snoc e evs)
  then show ?case by (simp add: run_snoc fallback_inv_step)
qed

text \<open>
  C2, as the source has it. In a document session on a streamed answer that has left its
  read loop without streaming ever having started, the client still connected, the
  response is the comment line, one content event and the terminal marker. The content
  is the fallback sentence as the source writes it, with the typographic apostrophe
  \<open>U+2019\<close> and not the ASCII one.
\<close>

theorem fallback_is_whole_response:
  "\<not> running (streamModelResponse Streaming Docs evs)
   \<and> \<not> startedStreaming (streamModelResponse Streaming Docs evs)
   \<and> \<not> clientClosed (streamModelResponse Streaming Docs evs)
   \<longrightarrow> written (streamModelResponse Streaming Docs evs)
         = [Ping, Data Docs fallbackSentence, DoneMarker]
       \<and> fallbackSentence
           = js ''I don'' @ [0x2019] @ js ''t know based on the provided documents.''"
  using fallback_inv_run [of evs] by (simp add: fallback_inv_def fallbackSentence_def rsquo_def)

theorem fallback_is_whole_response_witness:
  "\<not> running (streamModelResponse Streaming Docs [Read [LContent (js ''I do'')], ReadDone])
   \<and> \<not> startedStreaming (streamModelResponse Streaming Docs [Read [LContent (js ''I do'')], ReadDone])
   \<and> \<not> clientClosed (streamModelResponse Streaming Docs [Read [LContent (js ''I do'')], ReadDone])
   \<and> written (streamModelResponse Streaming Docs [Read [LContent (js ''I do'')], ReadDone])
         = [Ping, Data Docs fallbackSentence, DoneMarker]"
proof -
  have "\<not> running (streamModelResponse Streaming Docs [Read [LContent (js ''I do'')], ReadDone])
   \<and> \<not> startedStreaming (streamModelResponse Streaming Docs [Read [LContent (js ''I do'')], ReadDone])
   \<and> \<not> clientClosed (streamModelResponse Streaming Docs [Read [LContent (js ''I do'')], ReadDone])"
    by code_simp
  with fallback_is_whole_response [of "[Read [LContent (js ''I do'')], ReadDone]"]
  show ?thesis by blast
qed

text \<open>
  The claim as it is stated fails: the content that is sent is not the sentence with
  the ASCII apostrophe.
\<close>

theorem fallback_not_ascii:
  "contents (written (streamModelResponse Streaming Docs [ReadDone])) = [fallbackSentence]
   \<and> fallbackSentence \<noteq> js ''I don't know based on the provided documents.''"
  by code_simp

section \<open>Where the stripper is applied\<close>

lemma contents_append: "contents (xs @ ys) = contents xs @ contents ys"
  by (induction xs rule: contents.induct) simp_all

lemma buffer_flush_started: "startedStreaming s \<Longrightarrow> buffer (flushIfNeeded f s) = buffer s"
  by (simp add: flushIfNeeded_def Let_def)

lemma buffer_flush_unstarted:
  "\<not> startedStreaming s \<Longrightarrow>
   buffer (flushIfNeeded f s) = buffer s
   \<or> buffer (flushIfNeeded f s) = stripLeadingPhrases (buffer s)"
  by (simp add: flushIfNeeded_def Let_def)

lemma contents_flush_started:
  assumes "startedStreaming s" "\<not> blocked s"
    "force \<or> MIN_SEND_DELTA \<le> int (length (buffer s)) - int (lastSentLen s)"
  shows "contents (written (flushIfNeeded force s))
         = contents (written s)
           @ (let chunk = js_trim (stripLeadingPhrases (drop (lastSentLen s) (buffer s)))
              in if chunk = [] then [] else [chunk])"
proof -
  let ?c = "js_trim (stripLeadingPhrases (drop (lastSentLen s) (buffer s)))"
  have "written (flushIfNeeded force s) = written (if ?c \<noteq> [] then sendChunk ?c s else s)"
    using assms by (auto simp add: flushIfNeeded_def Let_def blocked_def)
  then show ?thesis
    using assms(2) by (simp add: written_sendChunk contents_append Let_def)
qed

text \<open>
  C4, as the source has it. Until streaming starts, each content is appended and the
  stripper is applied to the whole buffer (once more when the flush starts the stream),
  so that only its front is removed. Once streaming has started the buffer is never
  stripped again: a content is appended to it and a flush leaves it as it is. But each
  increment that a flush forwards, \<^verbatim>\<open>buffer.slice(lastSentLen)\<close>, is passed through the
  stripper and trimmed before it is sent.
\<close>

theorem stripping_scope:
  "(c \<noteq> [] \<and> \<not> startedStreaming s \<longrightarrow>
      buffer (onContent c s) = stripLeadingPhrases (buffer s @ c)
      \<or> buffer (onContent c s) = stripLeadingPhrases (stripLeadingPhrases (buffer s @ c)))
   \<and> (startedStreaming s \<longrightarrow>
        buffer (onContent c s) = buffer s @ c \<and> buffer (flushIfNeeded force s) = buffer s)
   \<and> (startedStreaming s \<and> \<not> blocked s
        \<and> (force \<or> MIN_SEND_DELTA \<le> int (length (buffer s)) - int (lastSentLen s)) \<longrightarrow>
        contents (written (flushIfNeeded force s))
          = contents (written s)
            @ (let chunk = js_trim (stripLeadingPhrases (drop (lastSentLen s) (buffer s)))
               in if chunk = [] then [] else [chunk]))"
proof (intro conjI impI)
  assume a: "c \<noteq> [] \<and> \<not> startedStreaming s"
  let ?t = "s\<lparr>buffer := stripLeadingPhrases (buffer s @ c)\<rparr>"
  have "onContent c s = flushIfNeeded False ?t"
    using a by (simp add: onContent_def Let_def)
  moreover have "\<not> startedStreaming ?t" using a by simp
  ultimately show "buffer (onContent c s) = stripLeadingPhrases (buffer s @ c)
      \<or> buffer (onContent c s) = stripLeadingPhrases (stripLeadingPhrases (buffer s @ c))"
    using buffer_flush_unstarted [of ?t False] by simp
next
  assume a: "startedStreaming s"
  show "buffer (onContent c s) = buffer s @ c"
  proof (cases "c = []")
    case True
    then show ?thesis by (simp add: onContent_def)
  next
    case False
    let ?t = "s\<lparr>buffer := buffer s @ c\<rparr>"
    have "onContent c s = flushIfNeeded False ?t"
      using a False by (simp add: onContent_def Let_def)
    moreover have "startedStreaming ?t" using a by simp
    ultimately show ?thesis using buffer_flush_started [of ?t False] by simp
  qed
next
  assume "startedStreaming s"
  then show "buffer (flushIfNeeded force s) = buffer s" by (rule buffer_flush_started)
next
  assume "startedStreaming s \<and> \<not> blocked s
        \<and> (force \<or> MIN_SEND_DELTA \<le> int (length (buffer s)) - int (lastSentLen s))"
  then show "contents (written (flushIfNeeded force s))
          = contents (written s)
            @ (let chunk = js_trim (stripLeadingPhrases (drop (lastSentLen s) (buffer s)))
               in if chunk = [] then [] else [chunk])"
    using contents_flush_started [of s force] by blast
qed

theorem stripping_scope_witness:
  "js ''I don'' \<noteq> [] \<and> \<not> startedStreaming (startSession Streaming Docs)
   \<and> (buffer (onContent (js ''I don'') (startSession Streaming Docs))
          = stripLeadingPhrases (buffer (startSession Streaming Docs) @ js ''I don'')
        \<or> buffer (onContent (js ''I don'') (startSession Streaming Docs))
          = stripLeadingPhrases
              (stripLeadingPhrases (buffer (startSession Streaming Docs) @ js ''I don'')))
   \<and> startedStreaming
         (streamModelResponse Streaming Docs [Read [LContent (js ''Answer: yes.'')], StartTimeout])
   \<and> \<not> blocked
         (streamModelResponse Streaming Docs [Read [LContent (js ''Answer: yes.'')], StartTimeout])
   \<and> buffer (onContent (js '' I know'')
         (streamModelResponse Streaming Docs [Read [LContent (js ''Answer: yes.'')], StartTimeout]))
       = js ''Answer: yes. I know''
   \<and> contents (written (flushIfNeeded True
         (onContent (js '' I know'')
           (streamModelResponse Streaming Docs
              [Read [LContent (js ''Answer: yes.'')], StartTimeout]))))
       = [js ''Answer: yes.'', js ''know'']"
proof -
  let ?s0 = "startSession Streaming Docs"
  let ?s1 = "streamModelResponse Streaming Docs [Read [LContent (js ''Answer: yes.'')], StartTimeout]"
  let ?s2 = "onContent (js '' I know'') ?s1"
  have h0: "js ''I don'' \<noteq> [] \<and> \<not> startedStreaming ?s0"
    by code_simp
  have h1: "startedStreaming ?s1 \<and> \<not> blocked ?s1 \<and> buffer ?s1 @ js '' I know'' = js ''Answer: yes. I know''"
    by code_simp
  have h2: "startedStreaming ?s2 \<and> \<not> blocked ?s2
     \<and> contents (written ?s2)
         @ (let chunk = js_trim (stripLeadingPhrases (drop (lastSentLen ?s2) (buffer ?s2)))
            in if chunk = [] then [] else [chunk])
       = [js ''Answer: yes.'', js ''know'']"
    by code_simp
  from h0 stripping_scope [of "js ''I don''" ?s0 True]
  have a: "buffer (onContent (js ''I don'') ?s0) = stripLeadingPhrases (buffer ?s0 @ js ''I don'')
        \<or> buffer (onContent (js ''I don'') ?s0)
            = stripLeadingPhrases (stripLeadingPhrases (buffer ?s0 @ js ''I don''))"
    by blast
  from h1 stripping_scope [of "js '' I know''" ?s1 True]
  have b: "buffer ?s2 = js ''Answer: yes. I know''" by simp
  from h2 stripping_scope [of "[]" ?s2 True]
  have c: "contents (written (flushIfNeeded True ?s2)) = [js ''Answer: yes.'', js ''know'']"
    by simp
  from h0 h1 a b c show ?thesis by blast
qed

text \<open>
  The claim as it is stated fails: after the stream has started with \<^verbatim>\<open>Answer: yes.\<close>,
  the increment \<^verbatim>\<open> I know this\<close> reaches the client as \<^verbatim>\<open>know this\<close>.
\<close>

theorem increment_is_stripped:
  "contents (written (streamModelResponse Streaming Docs
        [Read [LContent (js ''Answer: yes.'')], StartTimeout, Read [LContent (js '' I know this'')]]))
     = [js ''Answer: yes.'', js ''know this'']
   \<and> js_trim (js '' I know this'') = js ''I know this''
   \<and> js ''know this'' \<noteq> js ''I know this''"
  by code_simp

section \<open>Retrieval and routing\<close>

lemma length_slice0: "0 \<le> k \<Longrightarrow> length (slice0 k xs) \<le> nat k"
  by (simp add: slice0_def)

lemma slice0_nonempty: "0 < k \<Longrightarrow> xs \<noteq> [] \<Longrightarrow> slice0 k xs \<noteq> []"
  by (cases xs) (auto simp: slice0_def take_Cons split: nat.splits)

lemma fanOut_pos: "0 \<le> topK cfg \<Longrightarrow> 0 < fanOut cfg"
  by (simp add: fanOut_def)

lemma pageContents_length: "pageContents ds = Inr r \<Longrightarrow> length r = length ds"
proof (induction ds arbitrary: r)
  case Nil
  then show ?case by simp
next
  case (Cons d ds)
  then show ?case by (cases d) (auto split: sum.splits)
qed

lemma docsChosen_length: "0 \<le> topK cfg \<Longrightarrow> length (docsChosen cfg scores) \<le> nat (fanOut cfg)"
proof -
  assume "0 \<le> topK cfg"
  then have "0 \<le> fanOut cfg" using fanOut_pos [of cfg] by simp
  then show ?thesis by (simp add: docsChosen_def Let_def length_slice0)
qed

lemma routeByScores_chunks:
  assumes "0 \<le> topK cfg" "routeByScores cfg q scores = Inr r"
  shows "length (r_chunks r) \<le> nat (fanOut cfg)"
proof (cases "topScoreOf scores < 0.25")
  case True
  with assms(2) show ?thesis by (auto simp add: routeByScores_def)
next
  case False
  with assms(2) obtain rel where rel: "pageContents (docsChosen cfg scores) = Inr rel"
    "r_chunks r = rel"
    by (auto simp add: routeByScores_def docsBranch_def split: sum.splits)
  from pageContents_length [OF rel(1)] docsChosen_length [OF assms(1), of scores] rel(2)
  show ?thesis by simp
qed

lemma askDocsStream_chunks:
  assumes "0 \<le> topK cfg" "snd (askDocsStream cfg lower f sim q st) = Inr r"
  shows "length (r_chunks r) \<le> nat (fanOut cfg)"
proof (cases "isLikelyChitchat lower q")
  case True
  with assms(2) show ?thesis by (auto simp add: askDocsStream_def)
next
  case False
  obtain calls x where g: "getScoresForQuery f sim st q = (calls, x)" by (cases "getScoresForQuery f sim st q")
  show ?thesis
  proof (cases x)
    case (Inl e)
    with g False assms(2) show ?thesis by (simp add: askDocsStream_def)
  next
    case (Inr scores)
    with g False assms(2) have "routeByScores cfg q scores = Inr r" by (simp add: askDocsStream_def)
    with assms(1) show ?thesis by (rule routeByScores_chunks)
  qed
qed

text \<open>
  C8. For every list of scores, sorted or not, and a fan-out that is not negative: the
  retriever of \<^verbatim>\<open>asRetriever\<close> returns at most \<open>topK\<close> chunks, and the document branch of
  \<^verbatim>\<open>askDocsStream\<close> at most \<^verbatim>\<open>config.topK || 5\<close> chunks, which is also the bound on the
  chunks of whatever \<^verbatim>\<open>askDocsStream\<close> routes, whatever the host's \<^verbatim>\<open>toLowerCase\<close>
  makes of the question. With a positive fan-out the retriever
  returns a chunk whenever there is a score at all, and the document branch returns a
  chunk whenever there is a score and the top score is at least 0.25.
\<close>

theorem retrieval_bounds:
  "(0 \<le> k \<longrightarrow> length (relevantOf k minScore scores) \<le> nat k)
   \<and> (0 \<le> topK cfg \<longrightarrow> length (docsChosen cfg scores) \<le> nat (fanOut cfg))
   \<and> (0 < k \<and> scores \<noteq> [] \<longrightarrow> relevantOf k minScore scores \<noteq> [])
   \<and> (0 \<le> topK cfg \<and> scores \<noteq> [] \<and> 0.25 \<le> topScoreOf scores
        \<longrightarrow> docsChosen cfg scores \<noteq> [])
   \<and> (0 \<le> topK cfg \<and> snd (askDocsStream cfg toLowerCase f sim q st) = Inr r
        \<longrightarrow> length (r_chunks r) \<le> nat (fanOut cfg))"
proof (intro conjI impI)
  assume "0 \<le> k"
  then show "length (relevantOf k minScore scores) \<le> nat k"
    by (simp add: relevantOf_def Let_def length_slice0)
next
  assume "0 \<le> topK cfg"
  then show "length (docsChosen cfg scores) \<le> nat (fanOut cfg)"
    by (rule docsChosen_length)
next
  assume "0 \<le> topK cfg \<and> snd (askDocsStream cfg toLowerCase f sim q st) = Inr r"
  then show "length (r_chunks r) \<le> nat (fanOut cfg)"
    using askDocsStream_chunks [of cfg toLowerCase f sim q st r] by blast
next
  assume "0 < k \<and> scores \<noteq> []"
  then show "relevantOf k minScore scores \<noteq> []"
    by (simp add: relevantOf_def Let_def slice0_nonempty)
next
  assume "0 \<le> topK cfg \<and> scores \<noteq> [] \<and> 0.25 \<le> topScoreOf scores"
  then have "0 < fanOut cfg" "scores \<noteq> []" using fanOut_pos [of cfg] by simp_all
  then show "docsChosen cfg scores \<noteq> []"
    by (simp add: docsChosen_def Let_def slice0_nonempty)
qed

theorem retrieval_bounds_witness:
  "(0::int) \<le> 5 \<and> (0::int) < 5 \<and> 0 \<le> topK config
   \<and> [\<lparr>doc = Some \<lparr>pageContent = js ''a''\<rparr>, score = 0.95\<rparr>,
       \<lparr>doc = Some \<lparr>pageContent = js ''b''\<rparr>, score = 0.5\<rparr>] \<noteq> []
   \<and> 0.25 \<le> topScoreOf [\<lparr>doc = Some \<lparr>pageContent = js ''a''\<rparr>, score = 0.95\<rparr>,
       \<lparr>doc = Some \<lparr>pageContent = js ''b''\<rparr>, score = 0.5\<rparr>]
   \<and> length (relevantOf 5 0.5 [\<lparr>doc = Some \<lparr>pageContent = js ''a''\<rparr>, score = 0.95\<rparr>,
       \<lparr>doc = Some \<lparr>pageContent = js ''b''\<rparr>, score = 0.5\<rparr>]) \<le> nat 5
   \<and> length (docsChosen config [\<lparr>doc = Some \<lparr>pageContent = js ''a''\<rparr>, score = 0.95\<rparr>,
       \<lparr>doc = Some \<lparr>pageContent = js ''b''\<rparr>, score = 0.5\<rparr>]) \<le> nat (fanOut config)
   \<and> relevantOf 5 0.5 [\<lparr>doc = Some \<lparr>pageContent = js ''a''\<rparr>, score = 0.95\<rparr>,
       \<lparr>doc = Some \<lparr>pageContent = js ''b''\<rparr>, score = 0.5\<rparr>] \<noteq> []
   \<and> docsChosen config [\<lparr>doc = Some \<lparr>pageContent = js ''a''\<rparr>, score = 0.95\<rparr>,
       \<lparr>doc = Some \<lparr>pageContent = js ''b''\<rparr>, score = 0.5\<rparr>] \<noteq> []"
proof -
  have h: "(0::int) \<le> 5 \<and> (0::int) < 5 \<and> 0 \<le> topK config
   \<and> [\<lparr>doc = Some \<lparr>pageContent = js ''a''\<rparr>, score = 0.95\<rparr>,
       \<lparr>doc = Some \<lparr>pageContent = js ''b''\<rparr>, score = 0.5\<rparr>] \<noteq> []
   \<and> 0.25 \<le> topScoreOf [\<lparr>doc = Some \<lparr>pageContent = js ''a''\<rparr>, score = 0.95\<rparr>,
       \<lparr>doc = Some \<lparr>pageContent = js ''b''\<rparr>, score = 0.5\<rparr>]"
    by (simp add: config_def topScoreOf_def)
  from h retrieval_bounds [of 5 "0.5" "[\<lparr>doc = Some \<lparr>pageContent = js ''a''\<rparr>, score = 0.95\<rparr>,
       \<lparr>doc = Some \<lparr>pageContent = js ''b''\<rparr>, score = 0.5\<rparr>]" config]
  show ?thesis by blast
qed

lemma getScores_empty:
  "vectors st = [] \<Longrightarrow>
   getScoresForQuery f sim st q = ([IndexQuery q], case f q of Inl e \<Rightarrow> Inl e | Inr v \<Rightarrow> Inr [])"
  by (simp add: getScoresForQuery_def enumerate_eq_zip split: sum.splits)

lemmas chat_defs = isLikelyChitchat_def js_trim_def asciiLowerCase_def re_test_def re_exec_def
  greetingRegex_def questionWords_def

text \<open>
  \<^verbatim>\<open>hi\<close> is chitchat as soon as \<^verbatim>\<open>toLowerCase\<close> leaves it as it is, which the host's
  function does.
\<close>

lemma hi_is_chitchat:
  assumes "toLowerCase (js ''hi'') = js ''hi''"
  shows "isLikelyChitchat toLowerCase (js ''hi'')"
proof -
  have t: "js_trim (js ''hi'') = js ''hi''"
    by (simp add: js_trim_def class_defs)
  have g: "re_test True greetingRegex (js ''hi'')"
    by (simp add: re_test_def re_exec_def greetingRegex_def class_defs)
  have n: "js ''hi'' \<noteq> []"
    by (simp add: js_def)
  from t g n assms show ?thesis
    by (simp add: isLikelyChitchat_def)
qed

lemma asciiLowerCase_hi: "asciiLowerCase (js ''hi'') = js ''hi''"
  by (simp add: asciiLowerCase_def class_defs)

lemma refund_is_no_chitchat:
  "\<not> isLikelyChitchat asciiLowerCase (js ''what is the refund policy?'')"
  by (simp add: chat_defs class_defs)

text \<open>
  Where the case tables matter. With \<open>U+0130\<close> lower-cased to \<open>i\<close> and \<open>U+0307\<close>, the
  question \<open>U+0130\<close>\<^verbatim>\<open>how\<close> has five code units and a question word, and is no chitchat;
  with \<open>U+212A\<close> lower-cased to \<open>k\<close>, \<^verbatim>\<open>than\<close>\<open>U+212A\<close>\<^verbatim>\<open> you!!!\<close> is a greeting.
\<close>

lemma dotted_capital_I_how:
  assumes "toLowerCase ([0x0130] @ js ''how'') = js ''i'' @ [0x0307] @ js ''how''"
  shows "\<not> isLikelyChitchat toLowerCase ([0x0130] @ js ''how'')"
proof -
  have t: "js_trim ([0x0130] @ js ''how'') = [0x0130] @ js ''how''"
    by (simp add: js_trim_def class_defs)
  have g: "\<not> re_test True greetingRegex (js ''i'' @ [0x0307] @ js ''how'')"
    by (simp add: re_test_def re_exec_def greetingRegex_def class_defs)
  have k: "filter (\<lambda>t. t \<noteq> []) (split_ws [] (js ''i'' @ [0x0307] @ js ''how''))
             = [js ''i'' @ [0x0307] @ js ''how'']"
    by (simp add: class_defs)
  have w: "re_test True questionWords (js ''i'' @ [0x0307] @ js ''how'')"
    by (simp add: re_test_def re_exec_def questionWords_def class_defs)
  have l: "length (js ''i'' @ [0x0307] @ js ''how'') = 5"
    by (simp add: js_def)
  from t g k w l assms show ?thesis
    by (simp add: isLikelyChitchat_def Let_def)
qed

lemma kelvin_thank_you:
  assumes "toLowerCase (js ''than'' @ [0x212A] @ js '' you!!!'') = js ''thank you!!!''"
  shows "isLikelyChitchat toLowerCase (js ''than'' @ [0x212A] @ js '' you!!!'')"
proof -
  have t: "js_trim (js ''than'' @ [0x212A] @ js '' you!!!'') = js ''than'' @ [0x212A] @ js '' you!!!''"
    by (simp add: js_trim_def class_defs)
  have g: "re_test True greetingRegex (js ''thank you!!!'')"
    by (simp add: re_test_def re_exec_def greetingRegex_def class_defs)
  have n: "js ''than'' @ [0x212A] @ js '' you!!!'' \<noteq> []"
    by (simp add: js_def)
  from t g n assms show ?thesis
    by (simp add: isLikelyChitchat_def)
qed

text \<open>
  C9, as the source has it. There is no \<open>EmptyIndex\<close> error: on a store without vectors
  \<^verbatim>\<open>getScoresForQuery\<close> returns the empty list of scores, unless the embedding of the
  query fails, and \<^verbatim>\<open>askDocsStream\<close> then finds the top score 0 and takes the
  general-knowledge route.
\<close>

theorem empty_index_succeeds:
  assumes "vectors st = []"
  shows "snd (getScoresForQuery f sim st q) = (case f q of Inl e \<Rightarrow> Inl e | Inr v \<Rightarrow> Inr [])
         \<and> (\<not> isLikelyChitchat toLowerCase q \<and> f q = Inr v \<longrightarrow>
              snd (askDocsStream cfg toLowerCase f sim q st)
                = Inr \<lparr>r_source = Openai, r_prompt = GeneralPrompt q, r_chunks = []\<rparr>)"
  using assms
  by (simp add: getScores_empty askDocsStream_def routeByScores_def topScoreOf_def)

theorem empty_index_succeeds_witness:
  "vectors \<lparr>vectors = [], documents = []\<rparr> = []
   \<and> snd (getScoresForQuery (\<lambda>q. Inr [1]) (\<lambda>a b. 0) \<lparr>vectors = [], documents = []\<rparr>
           (js ''what is the refund policy?'')) = Inr []
   \<and> \<not> isLikelyChitchat asciiLowerCase (js ''what is the refund policy?'')
   \<and> snd (askDocsStream config asciiLowerCase (\<lambda>q. Inr [1]) (\<lambda>a b. 0)
           (js ''what is the refund policy?'') \<lparr>vectors = [], documents = []\<rparr>)
       = Inr \<lparr>r_source = Openai, r_prompt = GeneralPrompt (js ''what is the refund policy?''),
              r_chunks = []\<rparr>"
  using empty_index_succeeds [where st = "\<lparr>vectors = [], documents = []\<rparr>" and f = "\<lambda>q. Inr [1]"
      and sim = "\<lambda>a b. 0" and q = "js ''what is the refund policy?''" and v = "[1]"
      and cfg = config and toLowerCase = asciiLowerCase]
    refund_is_no_chitchat
  by simp

text \<open>
  The claim as it is stated fails: the query of an empty store succeeds, with no score.
\<close>

theorem empty_index_no_error:
  "getScoresForQuery (\<lambda>q. Inr [1]) (\<lambda>a b. 0) \<lparr>vectors = [], documents = []\<rparr> (js ''refund'')
     = ([IndexQuery (js ''refund'')], Inr [])"
  by (simp add: getScoresForQuery_def)

lemma askDocsStream_queries:
  "\<not> isLikelyChitchat toLowerCase q \<Longrightarrow>
   fst (askDocsStream cfg toLowerCase f sim q st) = [IndexQuery q]"
  by (simp add: askDocsStream_def getScoresForQuery_def split: sum.splits)

text \<open>
  C10. Whatever the host's \<^verbatim>\<open>toLowerCase\<close> does to other strings, if it leaves \<^verbatim>\<open>hi\<close>
  as it is then \<^verbatim>\<open>hi\<close> is chitchat; and for every question that \<^verbatim>\<open>isLikelyChitchat\<close>
  accepts, \<^verbatim>\<open>askDocsStream\<close> goes on with the source \<^verbatim>\<open>openai\<close> and the general prompt and
  has made no query of the similarity index, whatever the store and the embedding
  provider are. A question that \<^verbatim>\<open>isLikelyChitchat\<close> does not accept queries the index
  once.
\<close>

theorem chitchat_skips_index:
  "(toLowerCase (js ''hi'') = js ''hi'' \<longrightarrow> isLikelyChitchat toLowerCase (js ''hi''))
   \<and> (isLikelyChitchat toLowerCase q \<longrightarrow>
        askDocsStream cfg toLowerCase f sim q st
          = ([], Inr \<lparr>r_source = Openai, r_prompt = GeneralPrompt q, r_chunks = []\<rparr>))
   \<and> (\<not> isLikelyChitchat toLowerCase q \<longrightarrow>
        fst (askDocsStream cfg toLowerCase f sim q st) = [IndexQuery q])"
proof (intro conjI impI)
  assume "toLowerCase (js ''hi'') = js ''hi''"
  then show "isLikelyChitchat toLowerCase (js ''hi'')" by (rule hi_is_chitchat)
next
  assume "isLikelyChitchat toLowerCase q"
  then show "askDocsStream cfg toLowerCase f sim q st
          = ([], Inr \<lparr>r_source = Openai, r_prompt = GeneralPrompt q, r_chunks = []\<rparr>)"
    by (simp add: askDocsStream_def)
next
  assume "\<not> isLikelyChitchat toLowerCase q"
  then show "fst (askDocsStream cfg toLowerCase f sim q st) = [IndexQuery q]"
    by (rule askDocsStream_queries)
qed

theorem chitchat_skips_index_witness:
  "asciiLowerCase (js ''hi'') = js ''hi''
   \<and> isLikelyChitchat asciiLowerCase (js ''hi'')
   \<and> askDocsStream config asciiLowerCase (\<lambda>q. Inl EmbeddingFailure) (\<lambda>a b. 0) (js ''hi'')
        \<lparr>vectors = [[1]], documents = [\<lparr>pageContent = js ''refunds take 5 days''\<rparr>]\<rparr>
      = ([], Inr \<lparr>r_source = Openai, r_prompt = GeneralPrompt (js ''hi''), r_chunks = []\<rparr>)
   \<and> \<not> isLikelyChitchat asciiLowerCase (js ''what is the refund policy?'')
   \<and> fst (askDocsStream config asciiLowerCase (\<lambda>q. Inl EmbeddingFailure) (\<lambda>a b. 0)
        (js ''what is the refund policy?'')
        \<lparr>vectors = [[1]], documents = [\<lparr>pageContent = js ''refunds take 5 days''\<rparr>]\<rparr>)
      = [IndexQuery (js ''what is the refund policy?'')]"
  using asciiLowerCase_hi refund_is_no_chitchat
    chitchat_skips_index [where toLowerCase = asciiLowerCase and q = "js ''hi''" and cfg = config
      and f = "\<lambda>q. Inl EmbeddingFailure" and sim = "\<lambda>a b. 0"
      and st = "\<lparr>vectors = [[1]], documents = [\<lparr>pageContent = js ''refunds take 5 days''\<rparr>]\<rparr>"]
    chitchat_skips_index [where toLowerCase = asciiLowerCase
      and q = "js ''what is the refund policy?''" and cfg = config
      and f = "\<lambda>q. Inl EmbeddingFailure" and sim = "\<lambda>a b. 0"
      and st = "\<lparr>vectors = [[1]], documents = [\<lparr>pageContent = js ''refunds take 5 days''\<rparr>]\<rparr>"]
  by blast

end
